theory Spec2Isabelle
  imports Complex_Main "HOL-Library.Multiset" "HOL-Library.Sublist" "HOL-Library.Code_Target_Numeral"
begin

section \<open>JavaScript strings and the built-ins the engine relies on\<close>

text \<open>
  A JavaScript string is a sequence of UTF-16 code units. The engine compares strings
  with \<open>===\<close>, searches them with \<open>includes\<close>, \<open>startsWith\<close>, \<open>endsWith\<close> and
  \<open>split\<close>, and filters them with character classes such as \<open>[^a-z0-9\uAC00-\uD7A3]\<close>:
  all of these work on code units, so a string is modelled as a list of code units
  (natural numbers below 65536). \<open>js\<close> turns an ASCII literal into such a list.
\<close>

type_synonym jsstring = "nat list"

definition js :: "string \<Rightarrow> jsstring" where
  "js s = map (\<lambda>c. of_char c) s"

text \<open>The Korean suffixes and markers of the source, by code point.\<close>

definition kr_review :: jsstring where \<comment> \<open>U+AC80 U+D1A0, "review"\<close>
  "kr_review = [0xAC80, 0xD1A0]"

definition kr_ref :: jsstring where \<comment> \<open>U+AE30 U+C900, "reference"\<close>
  "kr_ref = [0xAE30, 0xC900]"

definition kr_comp :: jsstring where \<comment> \<open>U+BE44 U+AD50, "comparison"\<close>
  "kr_comp = [0xBE44, 0xAD50]"

definition kr_remark :: jsstring where \<comment> \<open>U+BE44 U+ACE0, "remark"\<close>
  "kr_remark = [0xBE44, 0xACE0]"

definition sfx_ref :: jsstring where
  "sfx_ref = js ''_'' @ kr_ref"

definition sfx_comp :: jsstring where
  "sfx_comp = js ''_'' @ kr_comp"

definition sfx_refReview :: jsstring where
  "sfx_refReview = js ''_'' @ kr_ref @ kr_review"

definition sfx_compReview :: jsstring where
  "sfx_compReview = js ''_'' @ kr_comp @ kr_review"

definition sfx_diff :: jsstring where
  "sfx_diff = js ''_diff''"

text \<open>
  \<open>String.prototype.trim\<close> and the regular-expression class \<open>\s\<close> share one set:
  ECMAScript WhiteSpace and LineTerminator.
\<close>

definition is_ws :: "nat \<Rightarrow> bool" where
  "is_ws c \<longleftrightarrow>
     c = 0x09 \<or> c = 0x0A \<or> c = 0x0B \<or> c = 0x0C \<or> c = 0x0D \<or> c = 0x20 \<or>
     c = 0xA0 \<or> c = 0x1680 \<or> (0x2000 \<le> c \<and> c \<le> 0x200A) \<or> c = 0x2028 \<or>
     c = 0x2029 \<or> c = 0x202F \<or> c = 0x205F \<or> c = 0x3000 \<or> c = 0xFEFF"

definition trim :: "jsstring \<Rightarrow> jsstring" where
  "trim s = rev (dropWhile is_ws (rev (dropWhile is_ws s)))"

text \<open>\<open>s.replace(/[\r\n\t]/g, ' ')\<close>\<close>

definition replace_ctrl :: "jsstring \<Rightarrow> jsstring" where
  "replace_ctrl s = map (\<lambda>c. if c = 0x0D \<or> c = 0x0A \<or> c = 0x09 then 0x20 else c) s"

text \<open>\<open>s.replace(/\s+/g, ' ')\<close>: every maximal run of white space becomes one space.\<close>

fun collapse_run :: "bool \<Rightarrow> jsstring \<Rightarrow> jsstring" where
  "collapse_run inrun [] = []"
| "collapse_run inrun (c # cs) =
     (if is_ws c then (if inrun then collapse_run True cs else 0x20 # collapse_run True cs)
      else c # collapse_run False cs)"

definition collapse_ws :: "jsstring \<Rightarrow> jsstring" where
  "collapse_ws s = collapse_run False s"

text \<open>
  \<open>toLowerCase\<close> and \<open>toUpperCase\<close> on the ASCII letters. Code units outside ASCII are
  returned unchanged: that is what JavaScript does for digits, punctuation and Hangul;
  cased letters of other scripts are outside this model.
\<close>

definition lower_cu :: "nat \<Rightarrow> nat" where
  "lower_cu c = (if 0x41 \<le> c \<and> c \<le> 0x5A then c + 0x20 else c)"

definition upper_cu :: "nat \<Rightarrow> nat" where
  "upper_cu c = (if 0x61 \<le> c \<and> c \<le> 0x7A then c - 0x20 else c)"

definition toLowerCase :: "jsstring \<Rightarrow> jsstring" where
  "toLowerCase s = map lower_cu s"

definition toUpperCase :: "jsstring \<Rightarrow> jsstring" where
  "toUpperCase s = map upper_cu s"

text \<open>\<open>s.startsWith(p)\<close>, \<open>s.endsWith(p)\<close>, \<open>s.includes(p)\<close>\<close>

fun startsWith :: "jsstring \<Rightarrow> jsstring \<Rightarrow> bool" where
  "startsWith s [] = True"
| "startsWith [] (p # ps) = False"
| "startsWith (c # cs) (p # ps) = (c = p \<and> startsWith cs ps)"

definition endsWith :: "jsstring \<Rightarrow> jsstring \<Rightarrow> bool" where
  "endsWith s p = startsWith (rev s) (rev p)"

fun includes_str :: "jsstring \<Rightarrow> jsstring \<Rightarrow> bool" where
  "includes_str [] p = (p = [])"
| "includes_str (c # cs) p = (startsWith (c # cs) p \<or> includes_str cs p)"

text \<open>\<open>s.split('::')[0]\<close>: the part of \<open>s\<close> before the first merge separator.\<close>

fun split0 :: "jsstring \<Rightarrow> jsstring" where
  "split0 (a # b # cs) = (if a = 0x3A \<and> b = 0x3A then [] else a # split0 (b # cs))"
| "split0 cs = cs"

text \<open>
  A property value of a row object. The parser stores strings only; the engine itself
  stores strings and the flag \<open>true\<close> (\<open>_diff\<close>, \<open>skMatch\<close>). A missing property
  (\<open>undefined\<close>) is \<open>None\<close> at lookup.
\<close>

datatype jsval = VStr jsstring | VBool bool

fun toStr :: "jsval \<Rightarrow> jsstring" where \<comment> \<open>\<open>String(v)\<close>\<close>
  "toStr (VStr s) = s"
| "toStr (VBool b) = (if b then js ''true'' else js ''false'')"

fun truthy :: "jsval option \<Rightarrow> bool" where
  "truthy None = False"
| "truthy (Some (VStr s)) = (s \<noteq> [])"
| "truthy (Some (VBool b)) = b"

text \<open>\<open>String(v || '')\<close>, the idiom of the store for reading a cell as text.\<close>

fun strOrEmpty :: "jsval option \<Rightarrow> jsstring" where
  "strOrEmpty None = []"
| "strOrEmpty (Some v) = (if truthy (Some v) then toStr v else [])"

section \<open>keyManager.ts\<close>

definition normalizeKey :: "jsval option \<Rightarrow> jsstring" where
  "normalizeKey value =
     (case value of
        None \<Rightarrow> []
      | Some v \<Rightarrow> trim (collapse_ws (replace_ctrl (trim (toStr v)))))"

datatype ExistsStatus = Both | OnlyRef | OnlyComp | BothM

definition getIntegratedKey :: "jsstring \<Rightarrow> jsstring \<Rightarrow> ExistsStatus \<Rightarrow> jsstring" where
  "getIntegratedKey refKey compKey status =
     (let normalizedRef = normalizeKey (Some (VStr refKey));
          normalizedComp = normalizeKey (Some (VStr compKey))
      in if normalizedRef \<noteq> [] then normalizedRef
         else if normalizedComp \<noteq> [] then normalizedComp
         else js ''UNKNOWN'')"

text \<open>
  Synthetic identities of manually inserted rows. The module-level \<open>checkCounter\<close> is
  threaded through as state; \<open>Date.now()\<close> is the clock reading \<open>now\<close> of the call, a
  non-negative integer of milliseconds. \<open>decimal n\<close> is the text a template literal
  inserts for the integer \<open>n\<close>.
\<close>

fun decimal :: "nat \<Rightarrow> jsstring" where
  "decimal n = (if n < 10 then [0x30 + n] else decimal (n div 10) @ [0x30 + n mod 10])"

declare decimal.simps [simp del]

definition generateCheckKey :: "nat \<Rightarrow> nat \<Rightarrow> jsstring \<times> nat" where
  "generateCheckKey now checkCounter =
     (let c = checkCounter + 1
      in (js ''CHECK-'' @ decimal now @ js ''-'' @ decimal c, c))"

definition resetCheckCounter :: "nat \<Rightarrow> nat" where
  "resetCheckCounter checkCounter = 0"

text \<open>The \<open>integratedKey\<close> that \<open>addChecklistItem\<close> of the store gives its new row.\<close>

definition checklistItemKey :: "nat \<Rightarrow> jsstring" where
  "checklistItemKey now = js ''CHECK-'' @ decimal now"

text \<open>
  A run is a sequence of key generations, each with the clock reading it happens at;
  it yields the keys in order.
\<close>

datatype KeyOp = GenerateCheckKey | AddChecklistItem

fun runKeyOps :: "nat \<Rightarrow> (KeyOp \<times> nat) list \<Rightarrow> jsstring list" where
  "runKeyOps checkCounter [] = []"
| "runKeyOps checkCounter ((GenerateCheckKey, now) # ops) =
     (let (k, c) = generateCheckKey now checkCounter in k # runKeyOps c ops)"
| "runKeyOps checkCounter ((AddChecklistItem, now) # ops) =
     checklistItemKey now # runKeyOps checkCounter ops"

section \<open>The built-in \<open>Number(string)\<close>\<close>

text \<open>
  \<open>Number(s)\<close> follows the StringNumericLiteral grammar of ECMAScript: surrounding white
  space is dropped, the empty string is 0, a decimal literal may carry a sign, a fraction
  and an exponent, \<open>Infinity\<close> is accepted, and \<open>0x\<close>, \<open>0o\<close>, \<open>0b\<close> introduce unsigned
  integers in base 16, 8 and 2. Anything else is \<open>NaN\<close>. The mathematical value is
  rounded to the nearest IEEE 754 double (ties to even); a finite double is kept as the
  rational it denotes, and \<open>+0\<close> and \<open>-0\<close> are one value, as they are for \<open>===\<close>.
\<close>

datatype jsnum = NaN | Fin rat | PosInf | NegInf

fun bit_len :: "nat \<Rightarrow> nat" where
  "bit_len n = (if n = 0 then 0 else Suc (bit_len (n div 2)))"

declare bit_len.simps [simp del]

definition pow_int :: "rat \<Rightarrow> int \<Rightarrow> rat" where
  "pow_int b e = (if 0 \<le> e then b ^ nat e else 1 / b ^ nat (- e))"

text \<open>\<open>\<lfloor>log\<^sub>2 (n / d)\<rfloor>\<close> for positive \<open>n\<close> and \<open>d\<close>, from the bit lengths.\<close>

definition ilog2_ratio :: "nat \<Rightarrow> nat \<Rightarrow> int" where
  "ilog2_ratio n d =
     (let k = int (bit_len n) - int (bit_len d)
      in if (if 0 \<le> k then d * 2 ^ nat k \<le> n else d \<le> n * 2 ^ nat (- k)) then k else k - 1)"

text \<open>\<open>n / d\<close> rounded to the nearest integer, ties to the even one.\<close>

definition round_half_even_div :: "nat \<Rightarrow> nat \<Rightarrow> nat" where
  "round_half_even_div n d =
     (let q = n div d; r = n mod d
      in if 2 * r < d then q else if d < 2 * r then q + 1 else if even q then q else q + 1)"

text \<open>
  The double nearest to \<open>n / d\<close>: a 53-bit significand \<open>m\<close> times \<open>2\<^sup>s\<close>, where \<open>s\<close> is
  never below \<open>-1074\<close> (subnormal numbers), and \<open>Infinity\<close> from \<open>2\<^sup>1\<^sup>0\<^sup>2\<^sup>4\<close> on.
\<close>

definition round_ratio :: "nat \<Rightarrow> nat \<Rightarrow> jsnum" where
  "round_ratio n d =
     (if n = 0 then Fin 0
      else
        let e = max (ilog2_ratio n d) (- 1022);
            s = e - 52;
            m = (if s \<le> 0 then round_half_even_div (n * 2 ^ nat (- s)) d
                 else round_half_even_div n (d * 2 ^ nat s))
        in if 0 \<le> s \<and> 2 ^ 1024 \<le> m * 2 ^ nat s then PosInf
           else Fin (of_nat m * pow_int 2 s))"

text \<open>The double nearest to \<open>m \<times> 10\<^sup>x\<close>.\<close>

definition round_scaled :: "nat \<Rightarrow> int \<Rightarrow> jsnum" where
  "round_scaled m x =
     (if 0 \<le> x then round_ratio (m * 10 ^ nat x) 1 else round_ratio m (10 ^ nat (- x)))"

fun negate :: "jsnum \<Rightarrow> jsnum" where
  "negate NaN = NaN"
| "negate (Fin q) = Fin (- q)"
| "negate PosInf = NegInf"
| "negate NegInf = PosInf"

definition is_digit :: "nat \<Rightarrow> bool" where
  "is_digit c \<longleftrightarrow> 0x30 \<le> c \<and> c \<le> 0x39"

definition digit_val :: "nat \<Rightarrow> nat" where \<comment> \<open>value of a digit in base up to 16\<close>
  "digit_val c =
     (if 0x30 \<le> c \<and> c \<le> 0x39 then c - 0x30
      else if 0x61 \<le> c \<and> c \<le> 0x66 then c - 0x61 + 10
      else c - 0x41 + 10)"

definition is_radix_digit :: "nat \<Rightarrow> nat \<Rightarrow> bool" where
  "is_radix_digit b c \<longleftrightarrow>
     ((0x30 \<le> c \<and> c \<le> 0x39) \<or> (0x61 \<le> c \<and> c \<le> 0x66) \<or> (0x41 \<le> c \<and> c \<le> 0x46))
     \<and> digit_val c < b"

definition digits_val :: "nat \<Rightarrow> jsstring \<Rightarrow> nat" where
  "digits_val b ds = foldl (\<lambda>a c. b * a + digit_val c) 0 ds"

text \<open>The text after the mantissa: nothing, or an exponent part and nothing more.\<close>

definition parse_exponent :: "jsstring \<Rightarrow> int option" where
  "parse_exponent s =
     (case s of
        [] \<Rightarrow> Some 0
      | c # cs \<Rightarrow>
          if c = 0x65 \<or> c = 0x45 then
            (let neg = (cs \<noteq> [] \<and> hd cs = 0x2D);
                 ds = (if cs \<noteq> [] \<and> (hd cs = 0x2D \<or> hd cs = 0x2B) then tl cs else cs)
             in if ds \<noteq> [] \<and> list_all is_digit ds
                then Some (if neg then - int (digits_val 10 ds) else int (digits_val 10 ds))
                else None)
          else None)"

definition parse_unsigned :: "jsstring \<Rightarrow> jsnum" where
  "parse_unsigned s =
     (if s = js ''Infinity'' then PosInf
      else
        let ip = takeWhile is_digit s; r1 = dropWhile is_digit s
        in if r1 \<noteq> [] \<and> hd r1 = 0x2E then
             (let fp = takeWhile is_digit (tl r1); r3 = dropWhile is_digit (tl r1)
              in if ip = [] \<and> fp = [] then NaN
                 else (case parse_exponent r3 of
                         None \<Rightarrow> NaN
                       | Some e \<Rightarrow> round_scaled (digits_val 10 (ip @ fp)) (e - int (length fp))))
           else if ip = [] then NaN
           else (case parse_exponent r1 of
                   None \<Rightarrow> NaN
                 | Some e \<Rightarrow> round_scaled (digits_val 10 ip) e))"

definition parse_radix :: "nat \<Rightarrow> jsstring \<Rightarrow> jsnum" where
  "parse_radix b ds =
     (if ds \<noteq> [] \<and> list_all (is_radix_digit b) ds
      then round_ratio (digits_val b ds) 1 else NaN)"

definition Number :: "jsstring \<Rightarrow> jsnum" where
  "Number s =
     (let t = trim s
      in case t of
           [] \<Rightarrow> Fin 0
         | c # cs \<Rightarrow>
             if c = 0x30 \<and> cs \<noteq> [] \<and> (hd cs = 0x78 \<or> hd cs = 0x58) then parse_radix 16 (tl cs)
             else if c = 0x30 \<and> cs \<noteq> [] \<and> (hd cs = 0x6F \<or> hd cs = 0x4F) then parse_radix 8 (tl cs)
             else if c = 0x30 \<and> cs \<noteq> [] \<and> (hd cs = 0x62 \<or> hd cs = 0x42) then parse_radix 2 (tl cs)
             else if c = 0x2B then parse_unsigned cs
             else if c = 0x2D then negate (parse_unsigned cs)
             else parse_unsigned t)"

section \<open>comparisonEngine.ts: value equality\<close>

definition strip_commas :: "jsstring \<Rightarrow> jsstring" where \<comment> \<open>\<open>s.replace(/,/g, '')\<close>\<close>
  "strip_commas s = filter (\<lambda>c. c \<noteq> 0x2C) s"

definition isValuesMatch :: "jsval option \<Rightarrow> jsval option \<Rightarrow> bool" where
  "isValuesMatch v1 v2 =
     (let s1 = normalizeKey v1; s2 = normalizeKey v2
      in if toLowerCase s1 = toLowerCase s2 then True
         else if s1 \<noteq> [] \<and> s2 \<noteq> [] then
           (let n1 = Number (strip_commas s1); n2 = Number (strip_commas s2)
            in n1 \<noteq> NaN \<and> n2 \<noteq> NaN \<and> n1 = n2)
         else False)"


section \<open>comparisonEngine.ts: rows, mappings and exclusion rules\<close>

text \<open>
  A row object (\<open>Record<string, unknown>\<close>) is the list of its own properties in the
  order \<open>Object.keys\<close> enumerates them; property names are unique in it.
\<close>

type_synonym row = "(jsstring \<times> jsval) list"

definition getProp :: "row \<Rightarrow> jsstring \<Rightarrow> jsval option" where \<comment> \<open>\<open>row[name]\<close>\<close>
  "getProp r name = map_of r name"

fun setProp :: "jsstring \<Rightarrow> jsval \<Rightarrow> row \<Rightarrow> row" where \<comment> \<open>\<open>row[name] = v\<close>\<close>
  "setProp name v [] = [(name, v)]"
| "setProp name v (p # ps) = (if fst p = name then (name, v) # ps else p # setProp name v ps)"

record MappingInfo =
  refColumn :: jsstring
  compColumn :: jsstring
  isTarget :: bool
  isPK :: bool
  isSK :: bool

record ColumnExclusionConfig =
  excludeUnnamed :: bool
  patterns :: "jsstring list"

record PKExclusionConfig =
  excludeStartAlpha :: bool
  excludeEmpty :: bool
  customPatterns :: "jsstring list"

record ComparisonConfig =
  pkColumn :: jsstring
  skColumn :: "jsstring option"
  mappings :: "MappingInfo list"
  exclusionRules :: "jsstring list option"
  pkExclusion :: "PKExclusionConfig option"
  columnExclusion :: "ColumnExclusionConfig option"

text \<open>
  User patterns written \<open>/.../\<close> are compiled with \<open>new RegExp(body, 'i')\<close>. The regular
  expression engine is a built-in of the platform and is a parameter of the model:
  \<open>rx body subject\<close> is \<open>None\<close> when the constructor throws, and otherwise the result
  of \<open>test\<close>.
\<close>

type_synonym regex_engine = "jsstring \<Rightarrow> jsstring \<Rightarrow> bool option"

definition slice_1_m1 :: "jsstring \<Rightarrow> jsstring" where \<comment> \<open>\<open>s.slice(1, -1)\<close>\<close>
  "slice_1_m1 s = butlast (tl s)"

definition is_ascii_alpha :: "nat \<Rightarrow> bool" where
  "is_ascii_alpha c \<longleftrightarrow> (0x41 \<le> c \<and> c \<le> 0x5A) \<or> (0x61 \<le> c \<and> c \<le> 0x7A)"

text \<open>One pattern of \<open>patterns.some(...)\<close> in \<open>applyExclusionRules\<close>.\<close>

definition pkPatternExcludes :: "regex_engine \<Rightarrow> jsstring \<Rightarrow> jsstring \<Rightarrow> bool" where
  "pkPatternExcludes rx pkValue pattern =
     (let trimmed = trim pattern
      in if trimmed = [] then False
         else
           (case (if startsWith trimmed (js ''/'') \<and> endsWith trimmed (js ''/'')
                  then rx (slice_1_m1 trimmed) pkValue else None) of
              Some b \<Rightarrow> b
            | None \<Rightarrow> includes_str (toUpperCase pkValue) (toUpperCase trimmed)))"

definition keepRow ::
  "regex_engine \<Rightarrow> jsstring \<Rightarrow> bool \<Rightarrow> PKExclusionConfig option \<Rightarrow> jsstring list option
     \<Rightarrow> row \<Rightarrow> bool" where
  "keepRow rx pkCol useB1Filter pkExcl oldExclusionRules r =
     (let rawValue = getProp r pkCol;
          pkValue = normalizeKey rawValue
      in if (case pkExcl of None \<Rightarrow> False | Some c \<Rightarrow> excludeEmpty c)
            \<and> (\<not> truthy rawValue \<or> trim (toStr (the rawValue)) = []) then False
         else if pkValue = [] then False
         else if useB1Filter \<and> \<not> startsWith pkValue (js ''0-'') then False
         else if (case pkExcl of None \<Rightarrow> False | Some c \<Rightarrow> excludeStartAlpha c)
                 \<and> is_ascii_alpha (hd pkValue) then False
         else
           (let pats = (case pkExcl of
                          Some c \<Rightarrow> customPatterns c
                        | None \<Rightarrow> (case oldExclusionRules of Some rs \<Rightarrow> rs | None \<Rightarrow> []))
            in \<not> list_ex (pkPatternExcludes rx pkValue) pats))"

definition applyExclusionRules ::
  "regex_engine \<Rightarrow> row list \<Rightarrow> jsstring \<Rightarrow> bool \<Rightarrow> PKExclusionConfig option
     \<Rightarrow> jsstring list option \<Rightarrow> row list" where
  "applyExclusionRules rx data pkCol useB1Filter pkExcl oldExclusionRules =
     filter (keepRow rx pkCol useB1Filter pkExcl oldExclusionRules) data"

text \<open>\<open>/^column\s*\d+$/i.test(lower)\<close>\<close>

definition isColumnN :: "jsstring \<Rightarrow> bool" where
  "isColumnN lower =
     (startsWith (toLowerCase lower) (js ''column'')
      \<and> (let r = dropWhile is_ws (drop 6 lower) in r \<noteq> [] \<and> list_all is_digit r))"

definition colPatternMatches :: "regex_engine \<Rightarrow> jsstring \<Rightarrow> jsstring \<Rightarrow> bool" where
  "colPatternMatches rx colName p =
     (let trimmed = trim p
      in if trimmed = [] then False
         else
           (case (if startsWith trimmed (js ''/'') \<and> endsWith trimmed (js ''/'')
                  then rx (slice_1_m1 trimmed) colName else None) of
              Some b \<Rightarrow> b
            | None \<Rightarrow> includes_str (toLowerCase colName) (toLowerCase trimmed)))"

definition keepMapping :: "regex_engine \<Rightarrow> ColumnExclusionConfig \<Rightarrow> MappingInfo \<Rightarrow> bool" where
  "keepMapping rx config m =
     (let colName = refColumn m
      in if isPK m \<or> isSK m then True
         else if excludeUnnamed config
                 \<and> (let lower = toLowerCase colName
                     in startsWith lower (js ''unnamed'') \<or> isColumnN lower) then False
         else if patterns config \<noteq> [] then \<not> list_ex (colPatternMatches rx colName) (patterns config)
         else True)"

definition filterMappings ::
  "regex_engine \<Rightarrow> MappingInfo list \<Rightarrow> ColumnExclusionConfig option \<Rightarrow> MappingInfo list" where
  "filterMappings rx ms config =
     (case config of None \<Rightarrow> ms | Some c \<Rightarrow> filter (keepMapping rx c) ms)"

text \<open>
  \<open>getFuzzyValue\<close>: the exact property first; otherwise the first property whose name,
  lower-cased and stripped of everything but \<open>a-z\<close>, \<open>0-9\<close> and Hangul syllables, equals
  the stripped column name. A found name that is the empty string is falsy in the
  source and yields \<open>undefined\<close>.
\<close>

definition keepHeaderChar :: "nat \<Rightarrow> bool" where
  "keepHeaderChar c \<longleftrightarrow>
     (0x61 \<le> c \<and> c \<le> 0x7A) \<or> (0x30 \<le> c \<and> c \<le> 0x39) \<or> (0xAC00 \<le> c \<and> c \<le> 0xD7A3)"

definition normalizeName :: "jsstring \<Rightarrow> jsstring" where
  "normalizeName s = filter keepHeaderChar (toLowerCase s)"

definition getFuzzyValue :: "row option \<Rightarrow> jsstring \<Rightarrow> jsval option" where
  "getFuzzyValue r colName =
     (case r of
        None \<Rightarrow> None
      | Some ro \<Rightarrow>
          (case getProp ro colName of
             Some v \<Rightarrow> Some v
           | None \<Rightarrow>
               (case find (\<lambda>k. normalizeName k = normalizeName colName) (map fst ro) of
                  None \<Rightarrow> None
                | Some foundKey \<Rightarrow> if foundKey = [] then None else getProp ro foundKey)))"

definition getValueWithFallback :: "row option \<Rightarrow> jsstring \<Rightarrow> jsstring" where
  "getValueWithFallback r col =
     (let main = normalizeKey (getFuzzyValue r col)
      in if main \<noteq> [] then main
         else if endsWith col sfx_ref then normalizeKey (getFuzzyValue r (col @ kr_review))
         else if endsWith col sfx_comp then normalizeKey (getFuzzyValue r (col @ kr_review))
         else [])"


section \<open>comparisonEngine.ts: result rows\<close>

text \<open>
  A result row (\<open>ComparisonResult\<close>, later \<open>GridRow\<close>) has the fixed properties
  \<open>integratedKey\<close>, \<open>exists\<close>, \<open>standardPK\<close> and \<open>standardSK\<close>; every other property
  (the four facets and the \<open>_diff\<close> flag of each column, \<open>skMatch\<close>) is in \<open>cells\<close>,
  in insertion order. The names in \<open>cells\<close> all carry a suffix, so none of them is one of
  the four fixed names.
\<close>

record GridRow =
  integratedKey :: jsstring
  exists :: ExistsStatus
  standardPK :: jsstring
  standardSK :: jsstring
  cells :: row

definition orElse :: "jsstring \<Rightarrow> jsstring \<Rightarrow> jsstring" where \<comment> \<open>\<open>a || b\<close> on strings\<close>
  "orElse a b = (if a \<noteq> [] then a else b)"

text \<open>The four facets of one column, then its \<open>_diff\<close> flag when the row is matched.\<close>

definition putFacets ::
  "jsstring \<Rightarrow> jsstring \<Rightarrow> jsstring \<Rightarrow> jsstring \<Rightarrow> jsstring \<Rightarrow> row \<Rightarrow> row" where
  "putFacets col refV refReviewV compV compReviewV cs =
     setProp (col @ sfx_compReview) (VStr compReviewV)
       (setProp (col @ sfx_comp) (VStr compV)
          (setProp (col @ sfx_refReview) (VStr refReviewV)
             (setProp (col @ sfx_ref) (VStr refV) cs)))"

definition putDiff :: "ExistsStatus \<Rightarrow> jsstring \<Rightarrow> jsstring \<Rightarrow> jsstring \<Rightarrow> row \<Rightarrow> row" where
  "putDiff st col effRef effComp cs =
     (if st = Both \<and> \<not> isValuesMatch (Some (VStr effRef)) (Some (VStr effComp))
      then setProp (col @ sfx_diff) (VBool True) cs else cs)"

definition compColumnOr :: "MappingInfo option \<Rightarrow> jsstring \<Rightarrow> jsstring" where
  \<comment> \<open>\<open>pkMapping?.compColumn || pkColumn\<close>\<close>
  "compColumnOr m pkCol = (case m of None \<Rightarrow> pkCol | Some x \<Rightarrow> orElse (compColumn x) pkCol)"

definition reviewPK :: "row option \<Rightarrow> jsstring \<Rightarrow> jsstring" where
  "reviewPK r col =
     (case r of
        None \<Rightarrow> []
      | Some _ \<Rightarrow>
          (let rawReview = getFuzzyValue r (col @ kr_review)
           in if truthy rawReview then normalizeKey rawReview else []))"

definition ownKey :: "row option \<Rightarrow> jsstring \<Rightarrow> jsstring" where
  \<comment> \<open>\<open>row ? normalizeKey(row[col]) : ''\<close>\<close>
  "ownKey r col = (case r of None \<Rightarrow> [] | Some ro \<Rightarrow> normalizeKey (getProp ro col))"

definition reviewOf :: "row option \<Rightarrow> jsstring \<Rightarrow> jsstring" where
  \<comment> \<open>\<open>row ? normalizeKey(getFuzzyValue(row, col + review)) : ''\<close>\<close>
  "reviewOf r col = (case r of None \<Rightarrow> [] | Some _ \<Rightarrow> normalizeKey (getFuzzyValue r (col @ kr_review)))"

definition addMapped :: "row option \<Rightarrow> row option \<Rightarrow> ExistsStatus \<Rightarrow> row \<Rightarrow> MappingInfo \<Rightarrow> row" where
  "addMapped refRow compRow st cs m =
     (let refVal = normalizeKey (getFuzzyValue refRow (refColumn m));
          refReviewVal = reviewOf refRow (refColumn m);
          compVal = normalizeKey (getFuzzyValue compRow (compColumn m));
          compReviewVal = reviewOf compRow (compColumn m)
      in putDiff st (refColumn m) (orElse refVal refReviewVal) (orElse compVal compReviewVal)
           (putFacets (refColumn m) refVal refReviewVal compVal compReviewVal cs))"

definition createResultRow ::
  "row option \<Rightarrow> row option \<Rightarrow> ExistsStatus \<Rightarrow> ComparisonConfig \<Rightarrow> GridRow" where
  "createResultRow refRow compRow st config =
     (let pkCol = pkColumn config;
          ms = mappings config;
          compPKColumn = compColumnOr (find isPK ms) pkCol;
          refPK = ownKey refRow pkCol;
          refReviewPK = reviewPK refRow pkCol;
          effectiveRefPK = (if refPK = [] \<and> refReviewPK \<noteq> [] then refReviewPK else refPK);
          compPK = ownKey compRow compPKColumn;
          compReviewPK = reviewPK compRow compPKColumn;
          effectiveCompPK = (if compPK = [] \<and> compReviewPK \<noteq> [] then compReviewPK else compPK);
          cs1 = putDiff st pkCol effectiveRefPK effectiveCompPK
                  (putFacets pkCol refPK refReviewPK compPK compReviewPK []);
          skMapping = find isSK ms;
          refSK = (case skMapping of None \<Rightarrow> [] | Some m \<Rightarrow> ownKey refRow (refColumn m));
          refReviewSK = (case skMapping of None \<Rightarrow> [] | Some m \<Rightarrow> reviewOf refRow (refColumn m));
          compSK = (case skMapping of None \<Rightarrow> [] | Some m \<Rightarrow> ownKey compRow (compColumn m));
          compReviewSK = (case skMapping of None \<Rightarrow> [] | Some m \<Rightarrow> reviewOf compRow (compColumn m));
          cs2 = (case skMapping of
                   None \<Rightarrow> cs1
                 | Some m \<Rightarrow>
                     putDiff st (refColumn m) (orElse refSK refReviewSK) (orElse compSK compReviewSK)
                       (putFacets (refColumn m) refSK refReviewSK compSK compReviewSK cs1));
          cs3 = foldl (addMapped refRow compRow st) cs2 (filter (\<lambda>m. \<not> isPK m \<and> \<not> isSK m) ms)
      in \<lparr> integratedKey = getIntegratedKey effectiveRefPK effectiveCompPK st,
           exists = st,
           standardPK = orElse effectiveRefPK effectiveCompPK,
           standardSK = (case skMapping of None \<Rightarrow> [] | Some m \<Rightarrow> orElse refSK refReviewSK),
           cells = cs3 \<rparr>)"

section \<open>comparisonEngine.ts: the four matching principles\<close>

text \<open>
  Every \<open>results.push(createRow(...))\<close> of \<open>compareDatasets\<close> is recorded first as a plan
  entry: the rows it is built from, with their indices in the filtered arrays, the status
  and the \<open>skMatch\<close> flag. \<open>compareDatasets\<close> maps \<open>createRow\<close> over the plan.
\<close>

record PlanEntry =
  refItem :: "(nat \<times> row) option"
  compItem :: "(nat \<times> row) option"
  status :: ExistsStatus
  skMatch :: bool

record MatchState =
  results :: "PlanEntry list"
  refMatched :: "nat set"
  compMatched :: "nat set"

fun findIndex :: "('a \<Rightarrow> nat \<Rightarrow> bool) \<Rightarrow> nat \<Rightarrow> 'a list \<Rightarrow> nat option" where
  \<comment> \<open>\<open>xs.findIndex((x, idx) => P(x, idx))\<close>, counting from the given start\<close>
  "findIndex P i [] = None"
| "findIndex P i (x # xs) = (if P x i then Some i else findIndex P (Suc i) xs)"

text \<open>
  The body of the \<open>forEach\<close> of principle 1 (\<open>sk = False\<close>: keys compared by the part before
  \<open>::\<close>) and of principle 2 (\<open>sk = True\<close>: reference rows already matched are skipped, keys
  compared whole, the result flagged \<open>skMatch\<close>).
\<close>

definition matchStep ::
  "bool \<Rightarrow> (row \<Rightarrow> jsstring) \<Rightarrow> (row \<Rightarrow> jsstring) \<Rightarrow> (jsstring \<Rightarrow> jsstring) \<Rightarrow> row list
     \<Rightarrow> MatchState \<Rightarrow> nat \<times> row \<Rightarrow> MatchState" where
  "matchStep sk refKey compKey part filteredComp st ir =
     (let refIdx = fst ir; refRow = snd ir
      in if sk \<and> refIdx \<in> refMatched st then st
         else
           (let refRaw = refKey refRow
            in if refRaw = [] then st
               else
                 (case findIndex (\<lambda>compRow idx. idx \<notin> compMatched st
                                       \<and> part (compKey compRow) = part refRaw) 0 filteredComp of
                    None \<Rightarrow> st
                  | Some compIdx \<Rightarrow>
                      st\<lparr> results := results st @
                             [\<lparr> refItem = Some (refIdx, refRow),
                                compItem = Some (compIdx, filteredComp ! compIdx),
                                status = Both, skMatch = sk \<rparr>],
                          refMatched := insert refIdx (refMatched st),
                          compMatched := insert compIdx (compMatched st) \<rparr>)))"

definition principle1 :: "jsstring \<Rightarrow> jsstring \<Rightarrow> row list \<Rightarrow> row list \<Rightarrow> MatchState \<Rightarrow> MatchState" where
  "principle1 pkCol compPKColumn filteredRef filteredComp st =
     foldl (matchStep False (\<lambda>r. getValueWithFallback (Some r) pkCol)
              (\<lambda>r. getValueWithFallback (Some r) compPKColumn) split0 filteredComp)
       st (enumerate 0 filteredRef)"

definition principle2 :: "jsstring \<Rightarrow> jsstring \<Rightarrow> row list \<Rightarrow> row list \<Rightarrow> MatchState \<Rightarrow> MatchState" where
  "principle2 skCol compSKColumn filteredRef filteredComp st =
     foldl (matchStep True (\<lambda>r. getValueWithFallback (Some r) skCol)
              (\<lambda>r. getValueWithFallback (Some r) compSKColumn) (\<lambda>k. k) filteredComp)
       st (enumerate 0 filteredRef)"

definition onlyRefEntries :: "nat set \<Rightarrow> row list \<Rightarrow> PlanEntry list" where
  "onlyRefEntries matched filteredRef =
     map (\<lambda>ir. \<lparr> refItem = Some ir, compItem = None, status = OnlyRef, skMatch = False \<rparr>)
       (filter (\<lambda>ir. fst ir \<notin> matched) (enumerate 0 filteredRef))"

definition onlyCompEntries :: "nat set \<Rightarrow> row list \<Rightarrow> PlanEntry list" where
  "onlyCompEntries matched filteredComp =
     map (\<lambda>ic. \<lparr> refItem = None, compItem = Some ic, status = OnlyComp, skMatch = False \<rparr>)
       (filter (\<lambda>ic. fst ic \<notin> matched) (enumerate 0 filteredComp))"

definition matchPlan ::
  "jsstring \<Rightarrow> jsstring \<Rightarrow> jsstring option \<Rightarrow> jsstring option \<Rightarrow> row list \<Rightarrow> row list
     \<Rightarrow> PlanEntry list" where
  "matchPlan pkCol compPKColumn skCol compSKColumn filteredRef filteredComp =
     (let st0 = \<lparr> results = [], refMatched = {}, compMatched = {} \<rparr>;
          st1 = principle1 pkCol compPKColumn filteredRef filteredComp st0;
          st2 = (case (skCol, compSKColumn) of
                   (Some sk, Some csk) \<Rightarrow>
                     if sk \<noteq> [] \<and> csk \<noteq> []
                     then principle2 sk csk filteredRef filteredComp st1 else st1
                 | _ \<Rightarrow> st1)
      in results st2 @ onlyRefEntries (refMatched st2) filteredRef
           @ onlyCompEntries (compMatched st2) filteredComp)"

definition rowOfEntry :: "ComparisonConfig \<Rightarrow> PlanEntry \<Rightarrow> GridRow" where
  "rowOfEntry config e =
     (let r = createResultRow (map_option snd (refItem e)) (map_option snd (compItem e))
                (status e) config
      in if skMatch e then r\<lparr> cells := setProp (js ''skMatch'') (VBool True) (cells r) \<rparr> else r)"

definition filteredRefOf :: "regex_engine \<Rightarrow> row list \<Rightarrow> ComparisonConfig \<Rightarrow> bool \<Rightarrow> row list" where
  "filteredRefOf rx refData config useB1Filter =
     applyExclusionRules rx refData (pkColumn config) useB1Filter (pkExclusion config)
       (exclusionRules config)"

definition filteredCompOf :: "regex_engine \<Rightarrow> row list \<Rightarrow> ComparisonConfig \<Rightarrow> bool \<Rightarrow> row list" where
  "filteredCompOf rx compData config useB1Filter =
     applyExclusionRules rx compData
       (compColumnOr (find isPK (mappings config)) (pkColumn config)) useB1Filter
       (pkExclusion config) (exclusionRules config)"

definition planOf ::
  "regex_engine \<Rightarrow> row list \<Rightarrow> row list \<Rightarrow> ComparisonConfig \<Rightarrow> bool \<Rightarrow> PlanEntry list" where
  "planOf rx refData compData config useB1Filter =
     matchPlan (pkColumn config)
       (compColumnOr (find isPK (mappings config)) (pkColumn config))
       (skColumn config) (map_option compColumn (find isSK (mappings config)))
       (filteredRefOf rx refData config useB1Filter)
       (filteredCompOf rx compData config useB1Filter)"

definition effectiveMappingsOf :: "regex_engine \<Rightarrow> ComparisonConfig \<Rightarrow> MappingInfo list" where
  "effectiveMappingsOf rx config =
     filterMappings rx (filter (\<lambda>m. isTarget m \<or> isPK m \<or> isSK m) (mappings config))
       (columnExclusion config)"

definition compareDatasets ::
  "regex_engine \<Rightarrow> row list \<Rightarrow> row list \<Rightarrow> ComparisonConfig \<Rightarrow> bool \<Rightarrow> GridRow list" where
  "compareDatasets rx refData compData config useB1Filter =
     map (rowOfEntry (config\<lparr> mappings := effectiveMappingsOf rx config \<rparr>))
       (planOf rx refData compData config useB1Filter)"


section \<open>gridStore.ts: the per-column summary\<close>

definition statusText :: "ExistsStatus \<Rightarrow> jsstring" where
  "statusText st =
     (case st of Both \<Rightarrow> js ''Both'' | OnlyRef \<Rightarrow> js ''Only Ref''
      | OnlyComp \<Rightarrow> js ''Only Comp'' | BothM \<Rightarrow> js ''Both(M)'')"

text \<open>\<open>row[name]\<close> on a grid row: the fixed properties first, then the cells.\<close>

definition gridProp :: "GridRow \<Rightarrow> jsstring \<Rightarrow> jsval option" where
  "gridProp r name =
     (if name = js ''integratedKey'' then Some (VStr (integratedKey r))
      else if name = js ''exists'' then Some (VStr (statusText (exists r)))
      else if name = js ''standardPK'' then Some (VStr (standardPK r))
      else if name = js ''standardSK'' then Some (VStr (standardSK r))
      else getProp (cells r) name)"










section \<open>gridStore.ts: review compensation\<close>

text \<open>
  \<open>applyReviewCompensation\<close> regroups the rows by the identity the reviewer entered.
  Only the rows of the store are modelled; the migration of memos does not read or
  write them.
\<close>

definition reviewText :: "jsstring \<Rightarrow> GridRow \<Rightarrow> jsstring" where
  \<comment> \<open>\<open>String(row[col] || '').trim()\<close>\<close>
  "reviewText col r = trim (strOrEmpty (gridProp r col))"

definition pkReviewBase :: "jsstring \<Rightarrow> MappingInfo list \<Rightarrow> jsstring" where
  "pkReviewBase pkCol ms = (case find isPK ms of Some m \<Rightarrow> refColumn m | None \<Rightarrow> pkCol)"

definition hasReviewChange :: "jsstring \<Rightarrow> jsstring \<Rightarrow> GridRow \<Rightarrow> bool" where
  \<comment> \<open>the rows \<open>getReviewChanges\<close> reports\<close>
  "hasReviewChange pkRef pkComp r \<longleftrightarrow> reviewText pkRef r \<noteq> [] \<or> reviewText pkComp r \<noteq> []"

definition targetKey :: "jsstring \<Rightarrow> jsstring \<Rightarrow> GridRow \<Rightarrow> jsstring" where
  "targetKey pkRef pkComp r =
     split0 (orElse (reviewText pkRef r) (orElse (reviewText pkComp r) (integratedKey r)))"

text \<open>The \<open>Map\<close> from target key to rows, in insertion order.\<close>

fun addToGroup :: "jsstring \<Rightarrow> GridRow \<Rightarrow> (jsstring \<times> GridRow list) list \<Rightarrow> (jsstring \<times> GridRow list) list" where
  "addToGroup k r [] = [(k, [r])]"
| "addToGroup k r (g # gs) = (if fst g = k then (k, snd g @ [r]) # gs else g # addToGroup k r gs)"

definition groupRows :: "jsstring \<Rightarrow> jsstring \<Rightarrow> GridRow list \<Rightarrow> (jsstring \<times> GridRow list) list" where
  "groupRows pkRef pkComp rs = foldl (\<lambda>gs r. addToGroup (targetKey pkRef pkComp r) r gs) [] rs"

definition isRemarkCol :: "jsstring \<Rightarrow> bool" where
  "isRemarkCol colKey \<longleftrightarrow>
     includes_str colKey kr_review \<or> includes_str colKey kr_remark \<or> includes_str colKey (js ''Remark'')"

text \<open>\<open>Object.keys\<close> of the cells: each name once, in order of first occurrence.\<close>

fun ownKeys :: "row \<Rightarrow> jsstring list" where
  "ownKeys [] = []"
| "ownKeys (p # ps) = fst p # filter (\<lambda>k. k \<noteq> fst p) (ownKeys ps)"

text \<open>
  The body of \<open>Object.keys(srcRow).forEach\<close> for one column of one source row, after the
  test that skips the four fixed properties.
\<close>

definition mergeCell :: "row \<Rightarrow> row \<Rightarrow> jsstring \<Rightarrow> row" where
  "mergeCell src dest colKey =
     (let srcVal = trim (strOrEmpty (getProp src colKey));
          destVal = trim (strOrEmpty (getProp dest colKey))
      in if srcVal = [] then dest
         else if isRemarkCol colKey then
           (if destVal = [] then setProp colKey (VStr srcVal) dest
            else if srcVal \<noteq> destVal \<and> \<not> includes_str destVal srcVal
                 then setProp colKey (VStr (destVal @ js '' / '' @ srcVal)) dest
            else dest)
         else (if destVal = [] then setProp colKey (the (getProp src colKey)) dest else dest))"

definition fixedNames :: "jsstring list" where
  "fixedNames = [js ''integratedKey'', js ''exists'', js ''standardPK'', js ''standardSK'']"

definition mergeRow :: "GridRow \<Rightarrow> GridRow \<Rightarrow> GridRow" where
  "mergeRow mergedRow srcRow =
     mergedRow\<lparr> cells := foldl (mergeCell (cells srcRow)) (cells mergedRow)
                            (filter (\<lambda>k. k \<notin> set fixedNames) (ownKeys (cells srcRow))) \<rparr>"

definition representative :: "GridRow list \<Rightarrow> GridRow" where
  \<comment> \<open>\<open>groupRows.find(r => r.exists === 'Both' || r.exists === 'Both(M)') || groupRows[0]\<close>\<close>
  "representative grp =
     (case find (\<lambda>r. exists r = Both \<or> exists r = BothM) grp of Some r \<Rightarrow> r | None \<Rightarrow> hd grp)"

text \<open>
  The merged row is a fresh object, so the test \<open>srcRow === mergedRow\<close> of the source is
  never true and every row of the group, the representative included, is merged into it.
\<close>

definition mergeGroup :: "jsstring \<Rightarrow> GridRow list \<Rightarrow> GridRow" where
  "mergeGroup key grp =
     foldl mergeRow ((representative grp)\<lparr> integratedKey := key, exists := BothM \<rparr>) grp"

definition processGroup :: "jsstring \<Rightarrow> jsstring \<Rightarrow> jsstring \<times> GridRow list \<Rightarrow> GridRow" where
  "processGroup pkRef pkComp g =
     (let key = fst g; grp = snd g
      in if length grp = 1 then
           (let r = hd grp
            in if reviewText pkRef r \<noteq> [] \<or> reviewText pkComp r \<noteq> [] \<or> integratedKey r \<noteq> key
               then r\<lparr> integratedKey := key \<rparr> else r)
         else mergeGroup key grp)"

definition applyReviewCompensation :: "jsstring \<Rightarrow> MappingInfo list \<Rightarrow> GridRow list \<Rightarrow> GridRow list" where
  "applyReviewCompensation pkCol ms rs =
     (let pkRef = pkReviewBase pkCol ms @ sfx_refReview;
          pkComp = pkReviewBase pkCol ms @ sfx_compReview
      in if \<not> list_ex (hasReviewChange pkRef pkComp) rs then rs
         else map (processGroup pkRef pkComp) (groupRows pkRef pkComp rs))"

section \<open>gridStore.ts: the commit engine, the review columns of one resolved row\<close>

text \<open>
  A cell of the external document. Numbers are kept as the text \<open>String\<close> gives them,
  the only way the engine looks at them. An object value has an optional \<open>result\<close>
  (formula), optional \<open>richText\<close> runs, an optional \<open>text\<close> (hyperlink); \<open>objText\<close> is
  \<open>String(val)\<close> of the object, used when none of them is present. Alignment and border
  are opaque.
\<close>

datatype Prim = PString jsstring | PNumber jsstring | PBoolean bool

datatype CellValue =
    CNull
  | CString jsstring
  | CNumber jsstring
  | CBoolean bool
  | CObject "Prim option" "jsstring option list option" "Prim option" jsstring

datatype CellFont = Font jsstring nat bool jsstring | OtherFont nat

datatype CellFill = SolidFill jsstring | NoFill | OtherFill nat

record CellStyle =
  numFmt :: "jsstring option"
  font :: CellFont
  fill :: CellFill
  alignment :: nat
  border :: nat
  protection :: "nat option"

record Cell =
  cellValue :: CellValue
  cellStyle :: CellStyle

text \<open>
  A worksheet of the spreadsheet library: the cells by row and column number, and for
  each cell the master of the merged range it belongs to (the cell itself when it is not
  merged, or is the master). The library reads \<open>cell.value\<close> of a merged cell from its
  master and writes it there; \<open>cell.style\<close> is the cell's own, and assigning to it
  replaces the whole style object.
\<close>

record Sheet =
  cellAt :: "nat \<times> nat \<Rightarrow> Cell"
  masterOf :: "nat \<times> nat \<Rightarrow> nat \<times> nat"

definition cellValueOf :: "Sheet \<Rightarrow> nat \<times> nat \<Rightarrow> CellValue" where \<comment> \<open>\<open>cell.value\<close>\<close>
  "cellValueOf sh p = cellValue (cellAt sh (masterOf sh p))"

definition cellStyleOf :: "Sheet \<Rightarrow> nat \<times> nat \<Rightarrow> CellStyle" where \<comment> \<open>\<open>cell.style\<close>\<close>
  "cellStyleOf sh p = cellStyle (cellAt sh p)"

definition setCellValue :: "nat \<times> nat \<Rightarrow> CellValue \<Rightarrow> Sheet \<Rightarrow> Sheet" where \<comment> \<open>\<open>cell.value = v\<close>\<close>
  "setCellValue p v sh =
     sh\<lparr> cellAt := (cellAt sh)(masterOf sh p := (cellAt sh (masterOf sh p))\<lparr> cellValue := v \<rparr>) \<rparr>"

definition setCellStyle :: "nat \<times> nat \<Rightarrow> CellStyle \<Rightarrow> Sheet \<Rightarrow> Sheet" where \<comment> \<open>\<open>cell.style = s\<close>\<close>
  "setCellStyle p st sh = sh\<lparr> cellAt := (cellAt sh)(p := (cellAt sh p)\<lparr> cellStyle := st \<rparr>) \<rparr>"














section \<open>Notions used to state and prove the matching properties\<close>

text \<open>
  The index of the reference row and of the comparison row of a plan entry, the shape of
  a matched entry, and the book-keeping invariant of the matching loops: the two index
  sets are exactly the rows used by the entries pushed so far, each used once.
\<close>


definition refIx :: "PlanEntry \<Rightarrow> nat" where "refIx e = fst (the (refItem e))"
definition compIx :: "PlanEntry \<Rightarrow> nat" where "compIx e = fst (the (compItem e))"

definition bothEntry :: "row list \<Rightarrow> row list \<Rightarrow> PlanEntry \<Rightarrow> bool" where
  "bothEntry fr fc e \<longleftrightarrow>
     status e = Both \<and> refIx e < length fr \<and> refItem e = Some (refIx e, fr ! refIx e)
     \<and> compIx e < length fc \<and> compItem e = Some (compIx e, fc ! compIx e)"

definition wfState :: "row list \<Rightarrow> row list \<Rightarrow> MatchState \<Rightarrow> bool" where
  "wfState fr fc st \<longleftrightarrow>
     list_all (bothEntry fr fc) (results st)
     \<and> distinct (map refIx (results st)) \<and> set (map refIx (results st)) = refMatched st
     \<and> distinct (map compIx (results st)) \<and> set (map compIx (results st)) = compMatched st"


text \<open>
  \<open>sameKey\<close>: the two rows have equal keys under the comparison of the principle.
  \<open>takenEarlier es i j\<close>: comparison row \<open>j\<close> is paired, in \<open>es\<close>, with a reference row before \<open>i\<close>.
  \<open>firstFree\<close>: an entry pairs its reference row with the first comparison row of equal key
  that no earlier reference row has taken. \<open>noneFree\<close>: every comparison row of equal key
  is taken by an earlier reference row.
\<close>

definition sameKey ::
  "(row \<Rightarrow> jsstring) \<Rightarrow> (row \<Rightarrow> jsstring) \<Rightarrow> (jsstring \<Rightarrow> jsstring) \<Rightarrow> row list \<Rightarrow> row list
     \<Rightarrow> nat \<Rightarrow> nat \<Rightarrow> bool" where
  "sameKey rk ck part fr fc i j \<longleftrightarrow> part (ck (fc ! j)) = part (rk (fr ! i))"

definition takenEarlier :: "PlanEntry list \<Rightarrow> nat \<Rightarrow> nat \<Rightarrow> bool" where
  "takenEarlier es i j \<longleftrightarrow> list_ex (\<lambda>e. compIx e = j \<and> refIx e < i) es"

definition firstFree ::
  "(row \<Rightarrow> jsstring) \<Rightarrow> (row \<Rightarrow> jsstring) \<Rightarrow> (jsstring \<Rightarrow> jsstring) \<Rightarrow> row list \<Rightarrow> row list
     \<Rightarrow> PlanEntry list \<Rightarrow> PlanEntry \<Rightarrow> bool" where
  "firstFree rk ck part fr fc es e \<longleftrightarrow>
     rk (fr ! refIx e) \<noteq> [] \<and> sameKey rk ck part fr fc (refIx e) (compIx e)
     \<and> (\<forall>n < compIx e. sameKey rk ck part fr fc (refIx e) n \<longrightarrow> takenEarlier es (refIx e) n)"

definition noneFree ::
  "(row \<Rightarrow> jsstring) \<Rightarrow> (row \<Rightarrow> jsstring) \<Rightarrow> (jsstring \<Rightarrow> jsstring) \<Rightarrow> row list \<Rightarrow> row list
     \<Rightarrow> PlanEntry list \<Rightarrow> nat \<Rightarrow> bool" where
  "noneFree rk ck part fr fc es i \<longleftrightarrow>
     (\<forall>n < length fc. sameKey rk ck part fr fc i n \<longrightarrow> takenEarlier es i n)"

definition pkInv ::
  "(row \<Rightarrow> jsstring) \<Rightarrow> (row \<Rightarrow> jsstring) \<Rightarrow> (jsstring \<Rightarrow> jsstring) \<Rightarrow> row list \<Rightarrow> row list
     \<Rightarrow> nat \<Rightarrow> MatchState \<Rightarrow> bool" where
  "pkInv rk ck part fr fc i st \<longleftrightarrow>
     wfState fr fc st \<and> refMatched st \<subseteq> {..<i}
     \<and> list_all (\<lambda>e. \<not> skMatch e) (results st)
     \<and> sorted_wrt (<) (map refIx (results st))
     \<and> list_all (firstFree rk ck part fr fc (results st)) (results st)
     \<and> (\<forall>a < i. rk (fr ! a) \<noteq> [] \<longrightarrow>
            a \<in> refMatched st \<or> noneFree rk ck part fr fc (results st) a)"


text \<open>
  The invariant of the second loop: it only appends entries flagged \<open>skMatch\<close>, in the
  order of the reference rows. \<open>entryShape\<close>: which sides an entry of each status has.
\<close>

definition skInv :: "row list \<Rightarrow> row list \<Rightarrow> PlanEntry list \<Rightarrow> nat \<Rightarrow> MatchState \<Rightarrow> bool" where
  "skInv fr fc base i st \<longleftrightarrow>
     wfState fr fc st
     \<and> (\<exists>p2. results st = base @ p2 \<and> list_all skMatch p2
              \<and> sorted_wrt (<) (map refIx p2) \<and> set (map refIx p2) \<subseteq> {..<i})"


text \<open>
  The principle that produced an entry: 1 for a primary-key match, 2 for a secondary-key
  match, 3 for reference only, 4 for comparison only.
\<close>

definition phase :: "PlanEntry \<Rightarrow> nat" where
  "phase e =
     (case status e of
        Both \<Rightarrow> (if skMatch e then 2 else 1)
      | OnlyRef \<Rightarrow> 3 | OnlyComp \<Rightarrow> 4 | BothM \<Rightarrow> 0)"

text \<open>
  What merging one source value does to the value of a column of the merged row: the
  rule of \<open>mergeCell\<close> on the values alone. \<open>blankVal\<close>: the value reads as blank text.
\<close>

definition mergeVal :: "jsstring \<Rightarrow> jsval option \<Rightarrow> jsval option \<Rightarrow> jsval option" where
  "mergeVal c dest src =
     (let srcVal = trim (strOrEmpty src); destVal = trim (strOrEmpty dest)
      in if srcVal = [] then dest
         else if isRemarkCol c then
           (if destVal = [] then Some (VStr srcVal)
            else if srcVal \<noteq> destVal \<and> \<not> includes_str destVal srcVal
                 then Some (VStr (destVal @ js '' / '' @ srcVal))
            else dest)
         else (if destVal = [] then src else dest))"









section \<open>Example data\<close>

text \<open>A platform without regular expressions: every \<open>/.../\<close> pattern falls back to substring search.\<close>

definition noRegex :: regex_engine where
  "noRegex body subject = None"

text \<open>
  The configuration of scenario A of the specification: identity \<open>TAG\<close> and one compared
  column \<open>DESC\<close>, no exclusion.
\<close>

definition cfgA :: ComparisonConfig where
  "cfgA = \<lparr> pkColumn = js ''TAG'', skColumn = None,
     mappings =
       [\<lparr> refColumn = js ''TAG'', compColumn = js ''TAG'', isTarget = True, isPK = True, isSK = False \<rparr>,
        \<lparr> refColumn = js ''DESC'', compColumn = js ''DESC'', isTarget = True, isPK = False, isSK = False \<rparr>],
     exclusionRules = None, pkExclusion = None, columnExclusion = None \<rparr>"

text \<open>
  Two rows on each side: the pump \<open>0-001\<close> is second in the comparison data, \<open>0-002\<close>
  exists only in the reference, \<open>0-003\<close> only in the comparison.
\<close>

definition refB :: "row list" where
  "refB = [[(js ''TAG'', VStr (js ''0-001'')), (js ''DESC'', VStr (js ''Pump''))],
           [(js ''TAG'', VStr (js ''0-002'')), (js ''DESC'', VStr (js ''Valve''))]]"

definition compB :: "row list" where
  "compB = [[(js ''TAG'', VStr (js ''0-003'')), (js ''DESC'', VStr (js ''Motor''))],
            [(js ''TAG'', VStr (js ''0-001'')), (js ''DESC'', VStr (js ''Pump''))]]"












text \<open>
  Rows of the review grid with identity column \<open>TAG\<close>: \<open>tagRow k st rv\<close> has integrated
  key \<open>k\<close>, status \<open>st\<close> and the reviewer's identity \<open>rv\<close> on the reference side.
  \<open>rowsDup\<close>: a duplicated reference identity, no reviewer edit. \<open>rowsSep\<close>: the reviewer
  re-keys the second row onto the first, writing the merge separator.
  \<open>rowsTypo\<close>: the reviewer corrects the identity of the second row to that of the first.
  \<open>rowsBlankPrefix\<close>: the reviewed identity of the first row starts with the merge separator.
\<close>

definition tagRow :: "jsstring \<Rightarrow> ExistsStatus \<Rightarrow> jsstring \<Rightarrow> GridRow" where
  "tagRow k st rv =
     \<lparr> integratedKey = k, exists = st, standardPK = k, standardSK = [],
       cells = [(js ''TAG'' @ sfx_ref, VStr k), (js ''TAG'' @ sfx_refReview, VStr rv),
                (js ''TAG'' @ sfx_comp, VStr []), (js ''TAG'' @ sfx_compReview, VStr [])] \<rparr>"


definition rowsSep :: "GridRow list" where
  "rowsSep = [tagRow (js ''K1'') Both (js ''K1''), tagRow (js ''K2'') OnlyRef (js ''K1::a'')]"

definition rowsTypo :: "GridRow list" where
  "rowsTypo = [tagRow (js ''K1'') OnlyComp [], tagRow (js ''K2'') OnlyRef (js ''K1'')]"

definition rowsBlankPrefix :: "GridRow list" where
  "rowsBlankPrefix = [tagRow (js ''K1'') OnlyRef (js ''::a''), tagRow (js ''K2'') Both []]"


section \<open>Integrated keys\<close>

lemma js_ne: "js (c # cs) \<noteq> []"
  by (simp add: js_def)

lemma getIntegratedKey_nonempty: "getIntegratedKey a b s \<noteq> []"
  by (simp add: getIntegratedKey_def Let_def js_ne)

lemma integratedKey_rowOfEntry: "integratedKey (rowOfEntry cfg e) \<noteq> []"
  by (simp add: rowOfEntry_def createResultRow_def Let_def getIntegratedKey_nonempty)

lemma getIntegratedKey_priority:
  "getIntegratedKey refKey compKey st =
     (if normalizeKey (Some (VStr refKey)) \<noteq> [] then normalizeKey (Some (VStr refKey))
      else if normalizeKey (Some (VStr compKey)) \<noteq> [] then normalizeKey (Some (VStr compKey))
      else js ''UNKNOWN'')"
  by (simp add: getIntegratedKey_def Let_def)

lemma compareDatasets_keys_nonempty:
  "r \<in> set (compareDatasets rx refData compData config useB1Filter) \<Longrightarrow> integratedKey r \<noteq> []"
  by (auto simp: compareDatasets_def integratedKey_rowOfEntry)

text \<open>
  Claim C2. \<open>getIntegratedKey\<close> returns the normalized reference key if it is not empty,
  else the normalized comparison key if it is not empty, else the sentinel \<open>UNKNOWN\<close>, so
  the \<open>integratedKey\<close> of every row that \<open>compareDatasets\<close> produces is a non-empty string
  (the two lemmas above). The claim extends this to every row of the grid, and there the
  code breaks it: \<open>applyReviewCompensation\<close> re-keys a row to the part of the reviewed
  identity before the merge separator and has no fallback like that of
  \<open>getIntegratedKey\<close>. Two rows with keys \<open>K1\<close> and \<open>K2\<close>; the reviewed identity of the
  first is \<open>::a\<close>, whose part before the separator is empty: the first row leaves
  \<open>applyReviewCompensation\<close> with the empty string as its \<open>integratedKey\<close>.
\<close>

theorem review_compensation_empties_key:
  "map integratedKey rowsBlankPrefix = [js ''K1'', js ''K2'']
   \<and> map (reviewText (js ''TAG'' @ sfx_refReview)) rowsBlankPrefix = [js ''::a'', []]
   \<and> map integratedKey (applyReviewCompensation (js ''TAG'') [] rowsBlankPrefix) = [[], js ''K2'']
   \<and> map exists (applyReviewCompensation (js ''TAG'') [] rowsBlankPrefix) = [OnlyRef, Both]"
  by code_simp

section \<open>Value equality\<close>

text \<open>
  Claim C6. The reference cases of the value matcher: \<open>"1"\<close> equals \<open>"1.0"\<close> and
  \<open>"1,000"\<close> equals \<open>"1000"\<close> by the numeric path, \<open>" Foo "\<close> equals \<open>"foo"\<close> by the
  normalized, lower-cased string path, and \<open>"A"\<close> does not equal \<open>"B"\<close>: the strings
  differ and neither parses as a number.
\<close>

theorem isValuesMatch_reference_cases:
  "isValuesMatch (Some (VStr (js ''1''))) (Some (VStr (js ''1.0'')))
   \<and> isValuesMatch (Some (VStr (js '' Foo ''))) (Some (VStr (js ''foo'')))
   \<and> isValuesMatch (Some (VStr (js ''1,000''))) (Some (VStr (js ''1000'')))
   \<and> \<not> isValuesMatch (Some (VStr (js ''A''))) (Some (VStr (js ''B'')))
   \<and> toLowerCase (normalizeKey (Some (VStr (js '' Foo '')))) = js ''foo''
   \<and> Number (js ''1'') = Fin 1 \<and> Number (js ''1.0'') = Fin 1
   \<and> strip_commas (js ''1,000'') = js ''1000'' \<and> Number (js ''1000'') = Fin 1000
   \<and> Number (js ''A'') = NaN \<and> Number (js ''B'') = NaN"
  by code_simp

text \<open>
  Claim C10. A blank value never matches a non-blank one: when the first value
  normalizes to the empty string and the second does not, \<open>isValuesMatch\<close> is false.
  The numeric path is not taken, because it requires both normalized strings to be
  non-empty.
\<close>

theorem blank_never_matches_nonblank:
  "normalizeKey a = [] \<Longrightarrow> normalizeKey b \<noteq> [] \<Longrightarrow> \<not> isValuesMatch a b"
  by (auto simp: isValuesMatch_def Let_def toLowerCase_def)

text \<open>
  The instance of the claim: \<open>""\<close> does not match \<open>"0"\<close>, although \<open>Number("")\<close> and
  \<open>Number("0")\<close> are the same number.
\<close>

theorem blank_never_matches_nonblank_witness:
  "normalizeKey (Some (VStr [])) = [] \<and> normalizeKey (Some (VStr (js ''0''))) \<noteq> []
   \<and> \<not> isValuesMatch (Some (VStr [])) (Some (VStr (js ''0'')))
   \<and> Number [] = Number (js ''0'')"
proof -
  have h1: "normalizeKey (Some (VStr [])) = []" by code_simp
  have h2: "normalizeKey (Some (VStr (js ''0''))) \<noteq> []" by code_simp
  have h3: "Number [] = Number (js ''0'')" by code_simp
  from blank_never_matches_nonblank [OF h1 h2] h1 h2 h3 show ?thesis by simp
qed

section \<open>The matching loops\<close>

lemma findIndex_Some:
  "findIndex P s xs = Some j \<Longrightarrow>
     s \<le> j \<and> j < s + length xs \<and> P (xs ! (j - s)) j \<and> (\<forall>n. n < j - s \<longrightarrow> \<not> P (xs ! n) (s + n))"
proof (induction xs arbitrary: s)
  case Nil
  then show ?case by simp
next
  case (Cons x xs)
  show ?case
  proof (cases "P x s")
    case True
    with Cons.prems show ?thesis by simp
  next
    case False
    with Cons.prems have rec: "findIndex P (Suc s) xs = Some j" by simp
    from Cons.IH [OF rec] have ih: "Suc s \<le> j" "j < Suc s + length xs" "P (xs ! (j - Suc s)) j"
      "\<forall>n. n < j - Suc s \<longrightarrow> \<not> P (xs ! n) (Suc s + n)" by auto
    have "j - s = Suc (j - Suc s)" using ih(1) by simp
    then have a: "(x # xs) ! (j - s) = xs ! (j - Suc s)" by simp
    have b: "\<forall>n. n < j - s \<longrightarrow> \<not> P ((x # xs) ! n) (s + n)"
    proof (intro allI impI)
      fix n assume n: "n < j - s"
      show "\<not> P ((x # xs) ! n) (s + n)"
      proof (cases n)
        case 0
        then show ?thesis using False by simp
      next
        case (Suc n')
        then have "n' < j - Suc s" using n by simp
        with ih(4) have "\<not> P (xs ! n') (Suc s + n')" by blast
        then show ?thesis using Suc by simp
      qed
    qed
    show ?thesis using ih a b by simp
  qed
qed

lemma findIndex_None:
  "findIndex P s xs = None \<Longrightarrow> n < length xs \<Longrightarrow> \<not> P (xs ! n) (s + n)"
proof (induction xs arbitrary: s n)
  case Nil
  then show ?case by simp
next
  case (Cons x xs)
  from Cons.prems(1) have nx: "\<not> P x s" and rec: "findIndex P (Suc s) xs = None"
    by (auto split: if_splits)
  show ?case
  proof (cases n)
    case 0
    then show ?thesis using nx by simp
  next
    case (Suc n')
    with Cons.prems(2) have "n' < length xs" by simp
    from Cons.IH [OF rec this] show ?thesis using Suc by simp
  qed
qed

lemma matchStep_cases:
  "(matchStep sk rk ck part fc st (i, r) = st
      \<and> ((sk \<and> i \<in> refMatched st) \<or> rk r = []
           \<or> (\<forall>n < length fc. n \<in> compMatched st \<or> part (ck (fc ! n)) \<noteq> part (rk r))))
   \<or> (\<exists>j. j < length fc \<and> j \<notin> compMatched st \<and> (sk \<longrightarrow> i \<notin> refMatched st) \<and> rk r \<noteq> []
          \<and> part (ck (fc ! j)) = part (rk r)
          \<and> (\<forall>n < j. n \<in> compMatched st \<or> part (ck (fc ! n)) \<noteq> part (rk r))
          \<and> matchStep sk rk ck part fc st (i, r) =
              st\<lparr> results := results st @
                     [\<lparr> refItem = Some (i, r), compItem = Some (j, fc ! j), status = Both, skMatch = sk \<rparr>],
                  refMatched := insert i (refMatched st),
                  compMatched := insert j (compMatched st) \<rparr>)"
proof (cases "findIndex (\<lambda>compRow idx. idx \<notin> compMatched st \<and> part (ck compRow) = part (rk r)) 0 fc")
  case None
  have "\<forall>n < length fc. n \<in> compMatched st \<or> part (ck (fc ! n)) \<noteq> part (rk r)"
    using findIndex_None [OF None] by auto
  then show ?thesis using None by (simp add: matchStep_def Let_def)
next
  case (Some j)
  from findIndex_Some [OF Some]
  have j: "j < length fc" "j \<notin> compMatched st" "part (ck (fc ! j)) = part (rk r)"
    "\<forall>n<j. n \<in> compMatched st \<or> part (ck (fc ! n)) \<noteq> part (rk r)"
    by auto
  show ?thesis
  proof (cases "(sk \<and> i \<in> refMatched st) \<or> rk r = []")
    case True
    then show ?thesis by (auto simp: matchStep_def Let_def)
  next
    case False
    then show ?thesis using Some j
      by (intro disjI2 exI [of _ j]) (auto simp: matchStep_def Let_def)
  qed
qed

lemma matchStep_wf:
  assumes wf: "wfState fr fc st" and i: "i < length fr" and fresh: "sk \<or> i \<notin> refMatched st"
  shows "wfState fr fc (matchStep sk rk ck part fc st (i, fr ! i))"
proof -
  consider (same) "matchStep sk rk ck part fc st (i, fr ! i) = st"
    | (found) j where "j < length fc" "j \<notin> compMatched st" "sk \<longrightarrow> i \<notin> refMatched st"
        "matchStep sk rk ck part fc st (i, fr ! i) =
              st\<lparr> results := results st @
                     [\<lparr> refItem = Some (i, fr ! i), compItem = Some (j, fc ! j), status = Both, skMatch = sk \<rparr>],
                  refMatched := insert i (refMatched st),
                  compMatched := insert j (compMatched st) \<rparr>"
    using matchStep_cases [of sk rk ck part fc st i "fr ! i"] by blast
  then show ?thesis
  proof cases
    case same
    with wf show ?thesis by simp
  next
    case (found j)
    have inew: "i \<notin> refMatched st" using fresh found(3) by blast
    show ?thesis
      using wf i found(1,2) inew unfolding found(4)
      by (auto simp: wfState_def bothEntry_def refIx_def compIx_def)
  qed
qed

lemma foldl_enumerate_induct:
  assumes base: "P k st"
    and step: "\<And>i s. k \<le> i \<Longrightarrow> i < length fr \<Longrightarrow> P i s \<Longrightarrow> P (Suc i) (f s (i, fr ! i))"
    and k: "k \<le> length fr"
  shows "P (length fr) (foldl f st (enumerate k (drop k fr)))"
  using base k step
proof (induction "length fr - k" arbitrary: k st)
  case 0
  then show ?case by simp
next
  case (Suc d)
  then have lt: "k < length fr" by simp
  have dr: "drop k fr = fr ! k # drop (Suc k) fr"
    using lt by (simp add: Cons_nth_drop_Suc)
  have p: "P (Suc k) (f st (k, fr ! k))"
    using Suc.prems(3) [of k st] lt Suc.prems(1) by simp
  have d: "d = length fr - Suc k" using Suc.hyps(2) by simp
  have "P (length fr) (foldl f (f st (k, fr ! k)) (enumerate (Suc k) (drop (Suc k) fr)))"
  proof (rule Suc.hyps(1) [OF d p])
    show "Suc k \<le> length fr" using lt by simp
    fix i s assume "Suc k \<le> i" "i < length fr" "P i s"
    then show "P (Suc i) (f s (i, fr ! i))" using Suc.prems(3) [of i s] by simp
  qed
  then show ?case by (simp add: dr)
qed

lemma foldl_enumerate_rule:
  assumes base: "P 0 st"
    and step: "\<And>i s. i < length fr \<Longrightarrow> P i s \<Longrightarrow> P (Suc i) (f s (i, fr ! i))"
  shows "P (length fr) (foldl f st (enumerate 0 fr))"
  using foldl_enumerate_induct [of P 0 st fr f] base step by simp


lemma takenEarlier_append: "takenEarlier es i j \<Longrightarrow> takenEarlier (es @ es') i j"
  by (auto simp: takenEarlier_def list_ex_iff)

lemma firstFree_append: "firstFree rk ck part fr fc es e \<Longrightarrow> firstFree rk ck part fr fc (es @ es') e"
  by (auto simp: firstFree_def takenEarlier_append)

lemma noneFree_append: "noneFree rk ck part fr fc es i \<Longrightarrow> noneFree rk ck part fr fc (es @ es') i"
  by (auto simp: noneFree_def takenEarlier_append)

lemma taken_of_matched:
  assumes wf: "wfState fr fc st" and sub: "refMatched st \<subseteq> {..<i}" and n: "n \<in> compMatched st"
  shows "takenEarlier (results st) i n"
proof -
  from wf n have "n \<in> compIx ` set (results st)"
    by (simp add: wfState_def)
  then obtain e where e: "e \<in> set (results st)" "compIx e = n"
    by blast
  then have "refIx e \<in> refMatched st" using wf by (auto simp: wfState_def)
  with sub have "refIx e < i" by auto
  with e show ?thesis by (auto simp: takenEarlier_def list_ex_iff)
qed

lemma pkInv_step:
  assumes inv: "pkInv rk ck part fr fc i st" and i: "i < length fr"
  shows "pkInv rk ck part fr fc (Suc i) (matchStep False rk ck part fc st (i, fr ! i))"
proof -
  from inv have wf: "wfState fr fc st" and sub: "refMatched st \<subseteq> {..<i}"
    and nsk: "list_all (\<lambda>e. \<not> skMatch e) (results st)"
    and srt: "sorted_wrt (<) (map refIx (results st))"
    and ff: "list_all (firstFree rk ck part fr fc (results st)) (results st)"
    and nf: "\<forall>a < i. rk (fr ! a) \<noteq> [] \<longrightarrow>
            a \<in> refMatched st \<or> noneFree rk ck part fr fc (results st) a"
    by (auto simp: pkInv_def)
  have fresh: "i \<notin> refMatched st" using sub by auto
  have wf': "wfState fr fc (matchStep False rk ck part fc st (i, fr ! i))"
    using matchStep_wf [OF wf i, of False] fresh by simp
  consider (same) "matchStep False rk ck part fc st (i, fr ! i) = st"
      "rk (fr ! i) = [] \<or> (\<forall>n < length fc. n \<in> compMatched st \<or> part (ck (fc ! n)) \<noteq> part (rk (fr ! i)))"
    | (found) j where "j < length fc" "j \<notin> compMatched st" "rk (fr ! i) \<noteq> []"
        "part (ck (fc ! j)) = part (rk (fr ! i))"
        "\<forall>n < j. n \<in> compMatched st \<or> part (ck (fc ! n)) \<noteq> part (rk (fr ! i))"
        "matchStep False rk ck part fc st (i, fr ! i) =
              st\<lparr> results := results st @
                     [\<lparr> refItem = Some (i, fr ! i), compItem = Some (j, fc ! j), status = Both, skMatch = False \<rparr>],
                  refMatched := insert i (refMatched st),
                  compMatched := insert j (compMatched st) \<rparr>"
    using matchStep_cases [of False rk ck part fc st i "fr ! i"] by blast
  then show ?thesis
  proof cases
    case same
    have "rk (fr ! i) \<noteq> [] \<longrightarrow> noneFree rk ck part fr fc (results st) i"
    proof
      assume "rk (fr ! i) \<noteq> []"
      with same(2) have all: "\<forall>n < length fc. n \<in> compMatched st \<or> part (ck (fc ! n)) \<noteq> part (rk (fr ! i))"
        by blast
      show "noneFree rk ck part fr fc (results st) i"
        unfolding noneFree_def sameKey_def
        using all taken_of_matched [OF wf sub] by blast
    qed
    with nf have nf': "\<forall>a < Suc i. rk (fr ! a) \<noteq> [] \<longrightarrow>
            a \<in> refMatched st \<or> noneFree rk ck part fr fc (results st) a"
      using less_Suc_eq by auto
    show ?thesis
      unfolding same(1) pkInv_def
      using wf sub nsk srt ff nf' by auto
  next
    case (found j)
    let ?e = "\<lparr> refItem = Some (i, fr ! i), compItem = Some (j, fc ! j), status = Both, skMatch = False \<rparr>"
    let ?st = "st\<lparr> results := results st @ [?e],
                  refMatched := insert i (refMatched st),
                  compMatched := insert j (compMatched st) \<rparr>"
    have ix: "refIx ?e = i" "compIx ?e = j" by (simp_all add: refIx_def compIx_def)
    have old_lt: "\<forall>x \<in> set (map refIx (results st)). x < i"
      using wf sub by (auto simp: wfState_def)
    have srt': "sorted_wrt (<) (map refIx (results st @ [?e]))"
      using srt old_lt ix by (simp add: sorted_wrt_append)
    have ffe: "firstFree rk ck part fr fc (results st @ [?e]) ?e"
      unfolding firstFree_def sameKey_def ix
      using found(3,4,5) taken_of_matched [OF wf sub] takenEarlier_append by blast
    have ff': "list_all (firstFree rk ck part fr fc (results st @ [?e])) (results st @ [?e])"
      using ff ffe firstFree_append by (auto simp: list_all_iff)
    have nf': "\<forall>a < Suc i. rk (fr ! a) \<noteq> [] \<longrightarrow>
            a \<in> insert i (refMatched st) \<or> noneFree rk ck part fr fc (results st @ [?e]) a"
      using nf noneFree_append less_Suc_eq by auto
    have wf2: "wfState fr fc ?st" using wf' found(6) by simp
    show ?thesis
      unfolding found(6) pkInv_def
      using wf2 sub nsk srt' ff' nf' by auto
  qed
qed

lemma pkInv_principle:
  assumes "pkInv rk ck part fr fc 0 st"
  shows "pkInv rk ck part fr fc (length fr)
           (foldl (matchStep False rk ck part fc) st (enumerate 0 fr))"
  by (rule foldl_enumerate_rule [where P = "pkInv rk ck part fr fc"]) (auto simp: assms pkInv_step)

lemma pkInv_init:
  "pkInv rk ck part fr fc 0 \<lparr> results = [], refMatched = {}, compMatched = {} \<rparr>"
  by (simp add: pkInv_def wfState_def)

lemma skInv_step:
  assumes inv: "skInv fr fc base i st" and i: "i < length fr"
  shows "skInv fr fc base (Suc i) (matchStep True rk ck part fc st (i, fr ! i))"
proof -
  from inv obtain p2 where wf: "wfState fr fc st" and res: "results st = base @ p2"
    and sk: "list_all skMatch p2" and srt: "sorted_wrt (<) (map refIx p2)"
    and sub: "set (map refIx p2) \<subseteq> {..<i}"
    by (auto simp: skInv_def)
  have wf': "wfState fr fc (matchStep True rk ck part fc st (i, fr ! i))"
    using matchStep_wf [OF wf i, of True] by simp
  consider (same) "matchStep True rk ck part fc st (i, fr ! i) = st"
    | (found) j where
        "matchStep True rk ck part fc st (i, fr ! i) =
              st\<lparr> results := results st @
                     [\<lparr> refItem = Some (i, fr ! i), compItem = Some (j, fc ! j), status = Both, skMatch = True \<rparr>],
                  refMatched := insert i (refMatched st),
                  compMatched := insert j (compMatched st) \<rparr>"
    using matchStep_cases [of True rk ck part fc st i "fr ! i"] by blast
  then show ?thesis
  proof cases
    case same
    have "set (map refIx p2) \<subseteq> {..<Suc i}" using sub by auto
    then show ?thesis unfolding same skInv_def using wf res sk srt by blast
  next
    case (found j)
    let ?e = "\<lparr> refItem = Some (i, fr ! i), compItem = Some (j, fc ! j), status = Both, skMatch = True \<rparr>"
    have ix: "refIx ?e = i" by (simp add: refIx_def)
    have a: "results st @ [?e] = base @ (p2 @ [?e])" using res by simp
    have b: "list_all skMatch (p2 @ [?e])" using sk by simp
    have c: "sorted_wrt (<) (map refIx (p2 @ [?e]))"
      using srt sub ix by (auto simp: sorted_wrt_append)
    have d: "set (map refIx (p2 @ [?e])) \<subseteq> {..<Suc i}" using sub ix by auto
    have "\<exists>q. results st @ [?e] = base @ q \<and> list_all skMatch q
              \<and> sorted_wrt (<) (map refIx q) \<and> set (map refIx q) \<subseteq> {..<Suc i}"
      using a b c d by blast
    then show ?thesis using wf' unfolding found skInv_def by simp
  qed
qed

lemma skInv_principle:
  assumes "wfState fr fc st"
  shows "skInv fr fc (results st) (length fr)
           (foldl (matchStep True rk ck part fc) st (enumerate 0 fr))"
proof (rule foldl_enumerate_rule [where P = "skInv fr fc (results st)"])
  show "skInv fr fc (results st) 0 st"
    using assms by (simp add: skInv_def)
  fix i s assume "i < length fr" "skInv fr fc (results st) i s"
  then show "skInv fr fc (results st) (Suc i) (matchStep True rk ck part fc s (i, fr ! i))"
    by (simp add: skInv_step)
qed

text \<open>The shape of the plan: the four principles in order.\<close>

lemma matchPlan_structure:
  fixes pk cpk :: jsstring
  defines "rk \<equiv> \<lambda>r. getValueWithFallback (Some r) pk"
    and "ck \<equiv> \<lambda>r. getValueWithFallback (Some r) cpk"
  shows "\<exists>st1 st2 p2.
           pkInv rk ck split0 fr fc (length fr) st1
           \<and> wfState fr fc st2
           \<and> results st2 = results st1 @ p2 \<and> list_all skMatch p2
           \<and> sorted_wrt (<) (map refIx p2)
           \<and> matchPlan pk cpk sk csk fr fc =
               results st1 @ p2 @ onlyRefEntries (refMatched st2) fr
                 @ onlyCompEntries (compMatched st2) fc"
proof -
  let ?st0 = "\<lparr> results = [], refMatched = {}, compMatched = {} \<rparr>"
  let ?st1 = "principle1 pk cpk fr fc ?st0"
  have p1: "pkInv rk ck split0 fr fc (length fr) ?st1"
    unfolding principle1_def rk_def ck_def
    by (rule pkInv_principle) (rule pkInv_init)
  then have wf1: "wfState fr fc ?st1" by (simp add: pkInv_def)
  show ?thesis
  proof (cases "\<exists>s c. sk = Some s \<and> csk = Some c \<and> s \<noteq> [] \<and> c \<noteq> []")
    case True
    then obtain s c where sc: "sk = Some s" "csk = Some c" "s \<noteq> []" "c \<noteq> []" by blast
    let ?st2 = "principle2 s c fr fc ?st1"
    have "skInv fr fc (results ?st1) (length fr) ?st2"
      unfolding principle2_def by (rule skInv_principle [OF wf1])
    then obtain p2 where wf2: "wfState fr fc ?st2" and r2: "results ?st2 = results ?st1 @ p2"
      and sk2: "list_all skMatch p2" and srt: "sorted_wrt (<) (map refIx p2)"
      by (auto simp: skInv_def)
    have "matchPlan pk cpk sk csk fr fc =
            results ?st1 @ p2 @ onlyRefEntries (refMatched ?st2) fr
              @ onlyCompEntries (compMatched ?st2) fc"
      using sc r2 by (simp add: matchPlan_def Let_def)
    with p1 wf2 r2 sk2 srt show ?thesis by blast
  next
    case False
    then have "matchPlan pk cpk sk csk fr fc =
            results ?st1 @ [] @ onlyRefEntries (refMatched ?st1) fr
              @ onlyCompEntries (compMatched ?st1) fc"
      by (auto simp: matchPlan_def Let_def split: option.splits)
    moreover have "results ?st1 = results ?st1 @ []" "list_all skMatch []"
      "sorted_wrt (<) (map refIx [])" by simp_all
    ultimately show ?thesis using p1 wf1 by blast
  qed
qed


lemma matchPlan_final_state:
  "\<exists>st2. wfState fr fc st2
         \<and> matchPlan pk cpk sk csk fr fc =
               results st2 @ onlyRefEntries (refMatched st2) fr
                 @ onlyCompEntries (compMatched st2) fc"
  using matchPlan_structure [where fr = fr and fc = fc and pk = pk and cpk = cpk and sk = sk and csk = csk]
  by (elim exE conjE) (rule_tac x = st2 in exI, simp)

lemma map_filter_refItem_both:
  "list_all (bothEntry fr fc) es \<Longrightarrow>
     List.map_filter refItem es = map (\<lambda>i. (i, fr ! i)) (map refIx es)"
  by (induction es) (auto simp: bothEntry_def)

lemma map_filter_compItem_both:
  "list_all (bothEntry fr fc) es \<Longrightarrow>
     List.map_filter compItem es = map (\<lambda>j. (j, fc ! j)) (map compIx es)"
  by (induction es) (auto simp: bothEntry_def)

lemma enumerate_as_map: "enumerate 0 xs = map (\<lambda>i. (i, xs ! i)) [0..<length xs]"
proof -
  have "enumerate 0 (map (nth xs) [0..<length xs]) = map (\<lambda>i. (i, xs ! i)) [0..<length xs]"
    by (rule enumerate_map_upt)
  then show ?thesis by (simp only: map_nth)
qed

lemma map_filter_onlyRef:
  "List.map_filter refItem (onlyRefEntries M fr) = filter (\<lambda>ir. fst ir \<notin> M) (enumerate 0 fr)"
  "List.map_filter compItem (onlyRefEntries M fr) = []"
  by (simp_all add: onlyRefEntries_def List.map_filter_def comp_def)

lemma map_filter_onlyComp:
  "List.map_filter compItem (onlyCompEntries M fc) = filter (\<lambda>ic. fst ic \<notin> M) (enumerate 0 fc)"
  "List.map_filter refItem (onlyCompEntries M fc) = []"
  by (simp_all add: onlyCompEntries_def List.map_filter_def comp_def)

lemma map_filter_app: "List.map_filter f (xs @ ys) = List.map_filter f xs @ List.map_filter f ys"
  by (simp add: List.map_filter_def)

lemma mset_distinct_upt:
  assumes "distinct xs" "set xs \<subseteq> {..<n}"
  shows "mset xs = mset (filter (\<lambda>i. i \<in> set xs) [0..<n])"
proof -
  have "set (filter (\<lambda>i. i \<in> set xs) [0..<n]) = set xs" using assms(2) by auto
  moreover have "distinct (filter (\<lambda>i. i \<in> set xs) [0..<n])" by simp
  ultimately show ?thesis using assms(1) by (metis set_eq_iff_mset_eq_distinct)
qed

lemma items_cover:
  assumes d: "distinct ixs" and s: "set ixs = M" and b: "M \<subseteq> {..<length xs}"
  shows "mset (map (\<lambda>i. (i, xs ! i)) ixs @ filter (\<lambda>ir. fst ir \<notin> M) (enumerate 0 xs))
           = mset (enumerate 0 xs)"
proof -
  let ?f = "\<lambda>i. (i, xs ! i)"
  have m: "mset ixs = mset (filter (\<lambda>i. i \<in> M) [0..<length xs])"
    using mset_distinct_upt [OF d, of "length xs"] s b by simp
  have fl: "filter (\<lambda>ir. fst ir \<notin> M) (enumerate 0 xs)
              = map ?f (filter (\<lambda>i. i \<notin> M) [0..<length xs])"
    by (simp add: enumerate_as_map filter_map comp_def)
  have "mset (map ?f ixs @ filter (\<lambda>ir. fst ir \<notin> M) (enumerate 0 xs))
          = image_mset ?f (mset (filter (\<lambda>i. i \<in> M) [0..<length xs])
                            + mset (filter (\<lambda>i. i \<notin> M) [0..<length xs]))"
    using m by (simp add: fl)
  also have "\<dots> = image_mset ?f (mset [0..<length xs])"
    by (simp only: mset_filter multiset_partition [symmetric])
  also have "\<dots> = mset (enumerate 0 xs)"
    by (simp add: enumerate_as_map)
  finally show ?thesis .
qed

lemma wfState_bounds:
  assumes "wfState fr fc st"
  shows "refMatched st \<subseteq> {..<length fr}" "compMatched st \<subseteq> {..<length fc}"
proof -
  from assms have la: "\<forall>e \<in> set (results st). refIx e < length fr \<and> compIx e < length fc"
    and sr: "refIx ` set (results st) = refMatched st"
    and sc: "compIx ` set (results st) = compMatched st"
    by (auto simp: wfState_def bothEntry_def list_all_iff)
  show "refMatched st \<subseteq> {..<length fr}" unfolding sr [symmetric] using la by auto
  show "compMatched st \<subseteq> {..<length fc}" unfolding sc [symmetric] using la by auto
qed

lemma matchPlan_complete:
  "mset (List.map_filter refItem (matchPlan pk cpk sk csk fr fc)) = mset (enumerate 0 fr)
   \<and> mset (List.map_filter compItem (matchPlan pk cpk sk csk fr fc)) = mset (enumerate 0 fc)"
proof -
  from matchPlan_final_state [of fr fc pk cpk sk csk]
  obtain st2 where wf: "wfState fr fc st2"
    and pl': "matchPlan pk cpk sk csk fr fc =
               results st2 @ onlyRefEntries (refMatched st2) fr
                 @ onlyCompEntries (compMatched st2) fc"
    by auto
  from wf have la: "list_all (bothEntry fr fc) (results st2)"
    and dr: "distinct (map refIx (results st2))" and sr: "set (map refIx (results st2)) = refMatched st2"
    and dc: "distinct (map compIx (results st2))" and sc: "set (map compIx (results st2)) = compMatched st2"
    by (simp_all add: wfState_def)
  have "mset (List.map_filter refItem (matchPlan pk cpk sk csk fr fc))
          = mset (map (\<lambda>i. (i, fr ! i)) (map refIx (results st2))
                   @ filter (\<lambda>ir. fst ir \<notin> refMatched st2) (enumerate 0 fr))"
    unfolding pl' by (simp add: map_filter_app map_filter_refItem_both [OF la]
        map_filter_onlyRef map_filter_onlyComp)
  also have "\<dots> = mset (enumerate 0 fr)"
    by (rule items_cover [OF dr sr wfState_bounds(1) [OF wf]])
  finally have a: "mset (List.map_filter refItem (matchPlan pk cpk sk csk fr fc)) = mset (enumerate 0 fr)" .
  have "mset (List.map_filter compItem (matchPlan pk cpk sk csk fr fc))
          = mset (map (\<lambda>j. (j, fc ! j)) (map compIx (results st2))
                   @ filter (\<lambda>ic. fst ic \<notin> compMatched st2) (enumerate 0 fc))"
    unfolding pl' by (simp add: map_filter_app map_filter_compItem_both [OF la]
        map_filter_onlyRef map_filter_onlyComp)
  also have "\<dots> = mset (enumerate 0 fc)"
    by (rule items_cover [OF dc sc wfState_bounds(2) [OF wf]])
  finally have b: "mset (List.map_filter compItem (matchPlan pk cpk sk csk fr fc)) = mset (enumerate 0 fc)" .
  from a b show ?thesis by blast
qed


section \<open>Matching completeness\<close>




lemma filter_phase_blocks:
  assumes "\<forall>e \<in> set A. phase e = 1" "\<forall>e \<in> set B. phase e = 2"
    "\<forall>e \<in> set C. phase e = 3" "\<forall>e \<in> set D. phase e = 4"
  shows "filter (\<lambda>e. phase e = 1) (A @ B @ C @ D) = A"
    "filter (\<lambda>e. phase e = 2) (A @ B @ C @ D) = B"
    "filter (\<lambda>e. phase e = 3) (A @ B @ C @ D) = C"
    "filter (\<lambda>e. phase e = 4) (A @ B @ C @ D) = D"
    "sorted (map phase (A @ B @ C @ D))"
proof -
  have f: "\<And>k xs. \<forall>e \<in> set xs. phase e = k \<Longrightarrow> filter (\<lambda>e. phase e = k) xs = xs"
    by (simp add: filter_id_conv)
  have g: "\<And>k l xs. \<forall>e \<in> set xs. phase e = k \<Longrightarrow> k \<noteq> l \<Longrightarrow> filter (\<lambda>e. phase e = l) xs = []"
    by (auto simp: filter_empty_conv)
  show "filter (\<lambda>e. phase e = 1) (A @ B @ C @ D) = A"
    using f [OF assms(1)] g [OF assms(2), of 1] g [OF assms(3), of 1] g [OF assms(4), of 1] by simp
  show "filter (\<lambda>e. phase e = 2) (A @ B @ C @ D) = B"
    using f [OF assms(2)] g [OF assms(1), of 2] g [OF assms(3), of 2] g [OF assms(4), of 2] by simp
  show "filter (\<lambda>e. phase e = 3) (A @ B @ C @ D) = C"
    using f [OF assms(3)] g [OF assms(1), of 3] g [OF assms(2), of 3] g [OF assms(4), of 3] by simp
  show "filter (\<lambda>e. phase e = 4) (A @ B @ C @ D) = D"
    using f [OF assms(4)] g [OF assms(1), of 4] g [OF assms(2), of 4] g [OF assms(3), of 4] by simp
  have h: "\<And>k xs. \<forall>e \<in> set xs. phase e = k \<Longrightarrow> sorted (map phase xs)"
  proof -
    fix k :: nat and xs :: "PlanEntry list"
    assume "\<forall>e \<in> set xs. phase e = k"
    then have "map phase xs = replicate (length xs) k"
      by (induction xs) auto
    then show "sorted (map phase xs)" by simp
  qed
  show "sorted (map phase (A @ B @ C @ D))"
    using assms h [OF assms(1)] h [OF assms(2)] h [OF assms(3)] h [OF assms(4)]
    by (auto simp: sorted_append)
qed

lemma onlyRef_sorted: "sorted_wrt (<) (map refIx (onlyRefEntries M fr))"
proof -
  have "map refIx (onlyRefEntries M fr) = map fst (filter (\<lambda>ir. fst ir \<notin> M) (enumerate 0 fr))"
    by (simp add: onlyRefEntries_def refIx_def comp_def)
  also have "\<dots> = filter (\<lambda>i. i \<notin> M) (map fst (enumerate 0 fr))"
    by (simp only: filter_map comp_def)
  finally show ?thesis by (simp add: sorted_wrt_filter)
qed

lemma onlyComp_sorted: "sorted_wrt (<) (map compIx (onlyCompEntries M fc))"
proof -
  have "map compIx (onlyCompEntries M fc) = map fst (filter (\<lambda>ic. fst ic \<notin> M) (enumerate 0 fc))"
    by (simp add: onlyCompEntries_def compIx_def comp_def)
  also have "\<dots> = filter (\<lambda>i. i \<notin> M) (map fst (enumerate 0 fc))"
    by (simp only: filter_map comp_def)
  finally show ?thesis by (simp add: sorted_wrt_filter)
qed

lemma plan_index_distinct:
  "distinct (map fst (List.map_filter refItem (matchPlan pk cpk sk csk fr fc)))
   \<and> distinct (map fst (List.map_filter compItem (matchPlan pk cpk sk csk fr fc)))"
proof -
  have d: "\<And>(xs :: (nat \<times> row) list) (ys :: row list).
             mset xs = mset (enumerate 0 ys) \<Longrightarrow> distinct (map fst xs)"
  proof -
    fix xs :: "(nat \<times> row) list" and ys :: "row list"
    assume "mset xs = mset (enumerate 0 ys)"
    then have "mset (map fst xs) = mset (map fst (enumerate 0 ys))"
      by (metis mset_map)
    then have "distinct (map fst xs) = distinct (map fst (enumerate 0 ys))"
      by (rule mset_eq_imp_distinct_iff)
    then show "distinct (map fst xs)" by simp
  qed
  show ?thesis using matchPlan_complete [of pk cpk sk csk fr fc] d by blast
qed


lemma matchPlan_first_match:
  fixes pk cpk :: jsstring and sk csk :: "jsstring option" and fr fc :: "row list"
  defines "rk \<equiv> \<lambda>r. getValueWithFallback (Some r) pk"
    and "ck \<equiv> \<lambda>r. getValueWithFallback (Some r) cpk"
  defines "plan \<equiv> matchPlan pk cpk sk csk fr fc"
  defines "pkPairs \<equiv> filter (\<lambda>e. phase e = 1) plan"
  shows "list_all (\<lambda>e. bothEntry fr fc e \<and> firstFree rk ck split0 fr fc pkPairs e) pkPairs
    \<and> (\<forall>i < length fr. rk (fr ! i) \<noteq> [] \<longrightarrow>
          i \<in> refIx ` set pkPairs \<or> noneFree rk ck split0 fr fc pkPairs i)
    \<and> sorted (map phase plan)
    \<and> sorted_wrt (<) (map refIx pkPairs)
    \<and> sorted_wrt (<) (map refIx (filter (\<lambda>e. phase e = 2) plan))
    \<and> sorted_wrt (<) (map refIx (filter (\<lambda>e. phase e = 3) plan))
    \<and> sorted_wrt (<) (map compIx (filter (\<lambda>e. phase e = 4) plan))"
proof -
  from matchPlan_structure [where fr = fr and fc = fc and pk = pk and cpk = cpk and sk = sk and csk = csk]
  obtain st1 st2 p2 where inv: "pkInv rk ck split0 fr fc (length fr) st1"
    and wf2: "wfState fr fc st2" and r2: "results st2 = results st1 @ p2"
    and sk2: "list_all skMatch p2" and srt2: "sorted_wrt (<) (map refIx p2)"
    and pl: "plan = results st1 @ p2 @ onlyRefEntries (refMatched st2) fr
                 @ onlyCompEntries (compMatched st2) fc"
    unfolding rk_def ck_def plan_def by auto
  let ?A = "results st1" and ?C = "onlyRefEntries (refMatched st2) fr"
    and ?D = "onlyCompEntries (compMatched st2) fc"
  from inv have wf1: "wfState fr fc st1"
    and nsk: "list_all (\<lambda>e. \<not> skMatch e) ?A"
    and srt1: "sorted_wrt (<) (map refIx ?A)"
    and ff: "list_all (firstFree rk ck split0 fr fc ?A) ?A"
    and nf: "\<forall>a < length fr. rk (fr ! a) \<noteq> [] \<longrightarrow>
            a \<in> refMatched st1 \<or> noneFree rk ck split0 fr fc ?A a"
    by (simp_all add: pkInv_def)
  from wf1 have bA: "list_all (bothEntry fr fc) ?A" and sA: "set (map refIx ?A) = refMatched st1"
    by (simp_all add: wfState_def)
  from wf2 r2 have bB: "list_all (bothEntry fr fc) p2"
    by (simp add: wfState_def)
  have pA: "\<forall>e \<in> set ?A. phase e = 1"
    using bA nsk by (auto simp: list_all_iff bothEntry_def phase_def)
  have pB: "\<forall>e \<in> set p2. phase e = 2"
    using bB sk2 by (auto simp: list_all_iff bothEntry_def phase_def)
  have pC: "\<forall>e \<in> set ?C. phase e = 3"
    by (auto simp: onlyRefEntries_def phase_def)
  have pD: "\<forall>e \<in> set ?D. phase e = 4"
    by (auto simp: onlyCompEntries_def phase_def)
  note blocks = filter_phase_blocks [OF pA pB pC pD]
  have pk: "pkPairs = ?A" unfolding pkPairs_def pl by (rule blocks(1))
  have c1: "list_all (\<lambda>e. bothEntry fr fc e \<and> firstFree rk ck split0 fr fc pkPairs e) pkPairs"
    unfolding pk using bA ff by (simp add: list_all_iff)
  have c2: "\<forall>i < length fr. rk (fr ! i) \<noteq> [] \<longrightarrow>
          i \<in> refIx ` set pkPairs \<or> noneFree rk ck split0 fr fc pkPairs i"
    unfolding pk using nf sA by simp
  have c3: "sorted (map phase plan)" unfolding pl by (rule blocks(5))
  have c4: "sorted_wrt (<) (map refIx pkPairs)" unfolding pk by (rule srt1)
  have c5: "sorted_wrt (<) (map refIx (filter (\<lambda>e. phase e = 2) plan))"
    unfolding pl blocks(2) by (rule srt2)
  have c6: "sorted_wrt (<) (map refIx (filter (\<lambda>e. phase e = 3) plan))"
    unfolding pl blocks(3) by (rule onlyRef_sorted)
  have c7: "sorted_wrt (<) (map compIx (filter (\<lambda>e. phase e = 4) plan))"
    unfolding pl blocks(4) by (rule onlyComp_sorted)
  from c1 c2 c3 c4 c5 c6 c7 show ?thesis by (intro conjI)
qed

lemma normalizeKey_None [simp]: "normalizeKey None = []"
  by (simp add: normalizeKey_def)

lemma filtered_identity:
  assumes "r \<in> set (applyExclusionRules rx data pk b pe old)"
  shows "getValueWithFallback (Some r) pk = normalizeKey (getProp r pk)
         \<and> getValueWithFallback (Some r) pk \<noteq> []"
proof -
  from assms have "keepRow rx pk b pe old r" by (simp add: applyExclusionRules_def)
  then have ne: "normalizeKey (getProp r pk) \<noteq> []"
    by (auto simp: keepRow_def Let_def split: if_splits)
  then obtain v where v: "getProp r pk = Some v" by (cases "getProp r pk") auto
  then have "getFuzzyValue (Some r) pk = getProp r pk" by (simp add: getFuzzyValue_def)
  with ne show ?thesis by (simp add: getValueWithFallback_def Let_def)
qed

section \<open>First match wins\<close>

text \<open>
  Claim C3. Principle 1 is first-match-wins over the original order, comparing the part
  of the effective identity before \<open>::\<close>. With \<open>pkPairs\<close> the entries of principle 1:
  each is a \<open>Both\<close> entry of a reference row with a non-empty effective identity and the
  first comparison row of equal key part that no earlier reference row has taken; a
  reference row with a non-empty effective identity that principle 1 leaves unmatched
  found every comparison row of equal key part taken by an earlier reference row. Every
  filtered reference row has a non-empty effective identity, its normalized identity
  value, so the fallback to the review column is never needed here. The plan
  lists the entries of principles 1, 2, 3 and 4 in this order, each block in the original
  order of its rows, and no reference row and no comparison row occurs in two entries, so a
  later principle only consumes rows that no earlier principle matched.
\<close>

theorem first_match_wins:
  fixes rx :: regex_engine and config :: ComparisonConfig
    and refData compData :: "row list" and useB1Filter :: bool
  defines "fr \<equiv> filteredRefOf rx refData config useB1Filter"
    and "fc \<equiv> filteredCompOf rx compData config useB1Filter"
    and "refKey \<equiv> \<lambda>r. getValueWithFallback (Some r) (pkColumn config)"
    and "compKey \<equiv> \<lambda>r. getValueWithFallback (Some r)
                        (compColumnOr (find isPK (mappings config)) (pkColumn config))"
    and "plan \<equiv> planOf rx refData compData config useB1Filter"
  defines "pkPairs \<equiv> filter (\<lambda>e. phase e = 1) plan"
  shows "compareDatasets rx refData compData config useB1Filter
           = map (rowOfEntry (config\<lparr> mappings := effectiveMappingsOf rx config \<rparr>)) plan
    \<and> list_all (\<lambda>e. bothEntry fr fc e \<and> firstFree refKey compKey split0 fr fc pkPairs e) pkPairs
    \<and> (\<forall>i < length fr. refKey (fr ! i) \<noteq> [] \<longrightarrow>
          i \<in> refIx ` set pkPairs \<or> noneFree refKey compKey split0 fr fc pkPairs i)
    \<and> sorted (map phase plan)
    \<and> sorted_wrt (<) (map refIx pkPairs)
    \<and> sorted_wrt (<) (map refIx (filter (\<lambda>e. phase e = 2) plan))
    \<and> sorted_wrt (<) (map refIx (filter (\<lambda>e. phase e = 3) plan))
    \<and> sorted_wrt (<) (map compIx (filter (\<lambda>e. phase e = 4) plan))
    \<and> distinct (map fst (List.map_filter refItem plan))
    \<and> distinct (map fst (List.map_filter compItem plan))
    \<and> (\<forall>i < length fr. refKey (fr ! i) = normalizeKey (getProp (fr ! i) (pkColumn config))
                          \<and> refKey (fr ! i) \<noteq> [])
    \<and> (\<forall>e \<in> set plan.
          exists (rowOfEntry (config\<lparr> mappings := effectiveMappingsOf rx config \<rparr>) e) = status e)"
proof -
  have a: "compareDatasets rx refData compData config useB1Filter
           = map (rowOfEntry (config\<lparr> mappings := effectiveMappingsOf rx config \<rparr>)) plan"
    by (simp add: compareDatasets_def plan_def)
  have d: "\<forall>i < length fr. refKey (fr ! i) = normalizeKey (getProp (fr ! i) (pkColumn config))
                          \<and> refKey (fr ! i) \<noteq> []"
    unfolding refKey_def fr_def filteredRefOf_def
    using filtered_identity nth_mem by blast
  have e: "\<forall>e \<in> set plan.
          exists (rowOfEntry (config\<lparr> mappings := effectiveMappingsOf rx config \<rparr>) e) = status e"
    by (simp add: rowOfEntry_def createResultRow_def Let_def)
  have p: "plan = matchPlan (pkColumn config)
       (compColumnOr (find isPK (mappings config)) (pkColumn config))
       (skColumn config) (map_option compColumn (find isSK (mappings config))) fr fc"
    by (simp add: plan_def planOf_def fr_def fc_def)
  note b = matchPlan_first_match [where pk = "pkColumn config"
      and cpk = "compColumnOr (find isPK (mappings config)) (pkColumn config)"
      and fr = fr and fc = fc and sk = "skColumn config"
      and csk = "map_option compColumn (find isSK (mappings config))",
      folded p, folded pkPairs_def]
  note c = plan_index_distinct [of "pkColumn config"
      "compColumnOr (find isPK (mappings config)) (pkColumn config)"
      "skColumn config" "map_option compColumn (find isSK (mappings config))" fr fc, folded p]
  from a b c d e show ?thesis
    unfolding refKey_def compKey_def by (elim conjE) (intro conjI)
qed


lemma scenarioB_pairs:
  "map (\<lambda>e. (phase e, refIx e, compIx e)) (filter (\<lambda>e. phase e = 1) (planOf noRegex refB compB cfgA False))
     = [(1, 0, 1)]"
  by code_simp


theorem first_match_wins_witness:
  "map (\<lambda>e. (phase e, refIx e, compIx e))
       (filter (\<lambda>e. phase e = 1) (planOf noRegex refB compB cfgA False)) = [(1, 0, 1)]
   \<and> sameKey (\<lambda>r. getValueWithFallback (Some r) (pkColumn cfgA))
        (\<lambda>r. getValueWithFallback (Some r) (compColumnOr (find isPK (mappings cfgA)) (pkColumn cfgA)))
        split0 (filteredRefOf noRegex refB cfgA False) (filteredCompOf noRegex compB cfgA False) 0 1
   \<and> sorted (map phase (planOf noRegex refB compB cfgA False))"
proof -
  let ?pairs = "filter (\<lambda>e. phase e = 1) (planOf noRegex refB compB cfgA False)"
  from scenarioB_pairs obtain e where e: "?pairs = [e]" "refIx e = 0" "compIx e = 1"
    by auto
  note fm = first_match_wins [where rx = noRegex and refData = refB and compData = compB
      and config = cfgA and useB1Filter = False]
  from fm have "list_all (\<lambda>e. bothEntry (filteredRefOf noRegex refB cfgA False)
                              (filteredCompOf noRegex compB cfgA False) e
        \<and> firstFree (\<lambda>r. getValueWithFallback (Some r) (pkColumn cfgA))
            (\<lambda>r. getValueWithFallback (Some r) (compColumnOr (find isPK (mappings cfgA)) (pkColumn cfgA)))
            split0 (filteredRefOf noRegex refB cfgA False) (filteredCompOf noRegex compB cfgA False)
            ?pairs e) ?pairs"
    by (elim conjE)
  then have sk: "sameKey (\<lambda>r. getValueWithFallback (Some r) (pkColumn cfgA))
        (\<lambda>r. getValueWithFallback (Some r) (compColumnOr (find isPK (mappings cfgA)) (pkColumn cfgA)))
        split0 (filteredRefOf noRegex refB cfgA False) (filteredCompOf noRegex compB cfgA False) 0 1"
    using e by (simp add: firstFree_def)
  from fm have "sorted (map phase (planOf noRegex refB compB cfgA False))"
    by (elim conjE)
  with sk scenarioB_pairs show ?thesis by (intro conjI)
qed

section \<open>Synthetic identities\<close>

text \<open>
  Claim C9, as stated, fails: after \<open>resetCheckCounter\<close> two runs performing the same
  sequence of generations still produce different keys when their clocks differ, because
  every key embeds \<open>Date.now()\<close>. One \<open>generateCheckKey\<close> at clock reading 1000 and one at
  2000, each right after a reset:
\<close>

theorem synthetic_keys_depend_on_clock:
  "runKeyOps (resetCheckCounter 0) [(GenerateCheckKey, 1000)]
     \<noteq> runKeyOps (resetCheckCounter 0) [(GenerateCheckKey, 2000)]"
  by code_simp

text \<open>
  Claim C9, amended. After \<open>resetCheckCounter\<close>, two runs that perform the same sequence of
  generations at the same clock readings produce the same keys, whatever the counter was
  before the reset: the reset removes the dependence on the counter, not on the clock.
\<close>

theorem synthetic_keys_deterministic_given_clock:
  "runKeyOps (resetCheckCounter c1) ops = runKeyOps (resetCheckCounter c2) ops"
  by (simp add: resetCheckCounter_def)

section \<open>The summary of key columns\<close>












section \<open>The commit engine and identical values\<close>


lemma sheet_ops [simp]:
  "masterOf (setCellValue p v sh) = masterOf sh"
  "masterOf (setCellStyle p s sh) = masterOf sh"
  "cellValueOf (setCellStyle p s sh) q = cellValueOf sh q"
  "cellStyleOf (setCellStyle p s sh) q = (if q = p then s else cellStyleOf sh q)"
  "cellStyleOf (setCellValue p v sh) q = cellStyleOf sh q"
  "cellValueOf (setCellValue p v sh) q = (if masterOf sh q = masterOf sh p then v else cellValueOf sh q)"
  by (simp_all add: setCellValue_def setCellStyle_def cellValueOf_def cellStyleOf_def)















section \<open>Grouping by target key\<close>

lemma addToGroup_keys:
  "map fst (addToGroup k r G) = (if k \<in> fst ` set G then map fst G else map fst G @ [k])"
  by (induction G) auto

lemma addToGroup_new: "k \<notin> fst ` set G \<Longrightarrow> addToGroup k r G = G @ [(k, [r])]"
  by (induction G) auto

lemma addToGroup_lookup:
  "map_of (addToGroup k r G) k' =
     (if k' = k then Some ((case map_of G k of Some g \<Rightarrow> g | None \<Rightarrow> []) @ [r]) else map_of G k')"
  by (induction G) auto

lemma groupRows_snoc:
  "groupRows pkRef pkComp (rs @ [r]) = addToGroup (targetKey pkRef pkComp r) r (groupRows pkRef pkComp rs)"
  by (simp add: groupRows_def)

lemma groupRows_keys_distinct: "distinct (map fst (groupRows pkRef pkComp rs))"
  by (induction rs rule: rev_induct) (auto simp: groupRows_snoc addToGroup_keys, simp add: groupRows_def)

lemma groupRows_key_set: "fst ` set (groupRows pkRef pkComp rs) = targetKey pkRef pkComp ` set rs"
proof (induction rs rule: rev_induct)
  case Nil
  then show ?case by (simp add: groupRows_def)
next
  case (snoc r rs)
  have "set (map fst (groupRows pkRef pkComp (rs @ [r])))
          = insert (targetKey pkRef pkComp r) (set (map fst (groupRows pkRef pkComp rs)))"
    unfolding groupRows_snoc addToGroup_keys by auto
  then show ?case using snoc by auto
qed

lemma groupRows_lookup:
  "map_of (groupRows pkRef pkComp rs) k =
     (if k \<in> targetKey pkRef pkComp ` set rs
      then Some (filter (\<lambda>r. targetKey pkRef pkComp r = k) rs) else None)"
proof (induction rs arbitrary: k rule: rev_induct)
  case Nil
  then show ?case by (simp add: groupRows_def)
next
  case (snoc r rs)
  have f: "filter (\<lambda>x. targetKey pkRef pkComp x = targetKey pkRef pkComp r) rs = []"
    if n: "targetKey pkRef pkComp r \<notin> targetKey pkRef pkComp ` set rs"
  proof -
    have "\<forall>x \<in> set rs. targetKey pkRef pkComp x \<noteq> targetKey pkRef pkComp r"
      using n by (metis imageI)
    then show ?thesis by (simp add: filter_empty_conv)
  qed
  show ?case
    unfolding groupRows_snoc addToGroup_lookup
    by (auto simp: snoc.IH f)
qed

lemma groupRows_member:
  "(k, grp) \<in> set (groupRows pkRef pkComp rs) \<longleftrightarrow>
     grp = filter (\<lambda>r. targetKey pkRef pkComp r = k) rs \<and> grp \<noteq> []"
proof -
  have "(k, grp) \<in> set (groupRows pkRef pkComp rs) \<longleftrightarrow> map_of (groupRows pkRef pkComp rs) k = Some grp"
    using groupRows_keys_distinct [of pkRef pkComp rs] by simp
  also have "\<dots> \<longleftrightarrow> k \<in> targetKey pkRef pkComp ` set rs \<and> grp = filter (\<lambda>r. targetKey pkRef pkComp r = k) rs"
    by (auto simp: groupRows_lookup)
  also have "\<dots> \<longleftrightarrow> grp = filter (\<lambda>r. targetKey pkRef pkComp r = k) rs \<and> grp \<noteq> []"
    by (auto simp: filter_empty_conv)
  finally show ?thesis .
qed

lemma groupRows_singletons:
  assumes "distinct (map (targetKey pkRef pkComp) rs)"
  shows "groupRows pkRef pkComp rs = map (\<lambda>r. (targetKey pkRef pkComp r, [r])) rs"
  using assms
proof (induction rs rule: rev_induct)
  case Nil
  then show ?case by (simp add: groupRows_def)
next
  case (snoc r rs)
  then have d: "distinct (map (targetKey pkRef pkComp) rs)"
    and n: "targetKey pkRef pkComp r \<notin> targetKey pkRef pkComp ` set rs" by auto
  have "targetKey pkRef pkComp r \<notin> fst ` set (groupRows pkRef pkComp rs)"
    using n by (simp add: groupRows_key_set)
  then show ?case
    unfolding groupRows_snoc using snoc.IH [OF d] by (simp add: addToGroup_new)
qed

section \<open>Merging a group, column by column\<close>

lemma getProp_setProp: "getProp (setProp k v al) c = (if c = k then Some v else getProp al c)"
  by (induction al) (auto simp: getProp_def)

lemma trim_Nil [simp]: "trim [] = []"
  by (simp add: trim_def)

lemma getProp_mergeCell:
  "getProp (mergeCell src dest c') c =
     (if c = c' then mergeVal c (getProp dest c) (getProp src c) else getProp dest c)"
proof (cases "getProp src c'")
  case None
  then show ?thesis by (simp add: mergeCell_def mergeVal_def Let_def)
next
  case (Some v)
  then show ?thesis
    by (simp add: mergeCell_def mergeVal_def Let_def getProp_setProp)
qed

lemma getProp_fold_mergeCell:
  "distinct ks \<Longrightarrow>
     getProp (foldl (mergeCell src) dest ks) c =
       (if c \<in> set ks then mergeVal c (getProp dest c) (getProp src c) else getProp dest c)"
proof (induction ks arbitrary: dest)
  case Nil
  then show ?case by simp
next
  case (Cons k ks)
  then have d: "distinct ks" and nk: "k \<notin> set ks" by auto
  show ?case
    using Cons.IH [OF d, of "mergeCell src dest k"] nk
    by (auto simp: getProp_mergeCell)
qed

lemma ownKeys_set: "set (ownKeys r) = fst ` set r"
  by (induction r) auto

lemma ownKeys_distinct: "distinct (ownKeys r)"
  by (induction r) auto

lemma getProp_None_iff: "getProp r c = None \<longleftrightarrow> c \<notin> fst ` set r"
  by (simp add: getProp_def map_of_eq_None_iff)

lemma mergeVal_None [simp]: "mergeVal c d None = d"
  by (simp add: mergeVal_def)

lemma getProp_mergeRow:
  "getProp (cells (mergeRow m src)) c =
     (if c \<in> set fixedNames then getProp (cells m) c
      else mergeVal c (getProp (cells m) c) (getProp (cells src) c))"
proof -
  let ?ks = "filter (\<lambda>k. k \<notin> set fixedNames) (ownKeys (cells src))"
  have d: "distinct ?ks" by (simp add: ownKeys_distinct)
  have mem: "c \<in> set ?ks \<longleftrightarrow> c \<notin> set fixedNames \<and> getProp (cells src) c \<noteq> None"
    by (auto simp: ownKeys_set getProp_None_iff)
  show ?thesis
    unfolding mergeRow_def
    using getProp_fold_mergeCell [OF d, of "cells src" "cells m" c] mem
    by (cases "getProp (cells src) c") auto
qed

lemma mergeRow_fields [simp]:
  "integratedKey (mergeRow m src) = integratedKey m"
  "exists (mergeRow m src) = exists m"
  "standardPK (mergeRow m src) = standardPK m"
  "standardSK (mergeRow m src) = standardSK m"
  by (simp_all add: mergeRow_def)

lemma fold_mergeRow_fields [simp]:
  "integratedKey (foldl mergeRow m grp) = integratedKey m"
  "exists (foldl mergeRow m grp) = exists m"
  "standardPK (foldl mergeRow m grp) = standardPK m"
  "standardSK (foldl mergeRow m grp) = standardSK m"
  by (induction grp arbitrary: m) simp_all

lemma getProp_fold_mergeRow:
  "c \<notin> set fixedNames \<Longrightarrow>
     getProp (cells (foldl mergeRow m grp)) c =
       foldl (\<lambda>d src. mergeVal c d (getProp (cells src) c)) (getProp (cells m) c) grp"
  by (induction grp arbitrary: m) (simp_all add: getProp_mergeRow)

lemma getProp_mergeGroup:
  "c \<notin> set fixedNames \<Longrightarrow>
     getProp (cells (mergeGroup key grp)) c =
       foldl (\<lambda>d src. mergeVal c d (getProp (cells src) c))
         (getProp (cells (representative grp)) c) grp"
  by (simp add: mergeGroup_def getProp_fold_mergeRow)

lemma mergeGroup_fields:
  "integratedKey (mergeGroup key grp) = key"
  "exists (mergeGroup key grp) = BothM"
  "standardPK (mergeGroup key grp) = standardPK (representative grp)"
  "standardSK (mergeGroup key grp) = standardSK (representative grp)"
  by (simp_all add: mergeGroup_def)



lemma processGroup_key: "snd g \<noteq> [] \<Longrightarrow> integratedKey (processGroup pkRef pkComp g) = fst g"
  by (auto simp: processGroup_def Let_def mergeGroup_fields)


section \<open>The row a group leaves\<close>


section \<open>Facts about trimming, the merge separator and the review columns\<close>

lemma split0_head: "split0 (b # cs) = [] \<or> (\<exists>t. split0 (b # cs) = b # t)"
  by (cases cs) auto

lemma split0_idem: "split0 (split0 s) = split0 s"
proof (induction s rule: split0.induct)
  case (1 a b cs)
  show ?case
  proof (cases "a = 0x3A \<and> b = 0x3A")
    case True
    then show ?thesis by simp
  next
    case False
    then have e: "split0 (a # b # cs) = a # split0 (b # cs)" by auto
    from split0_head [of b cs] show ?thesis
    proof
      assume "split0 (b # cs) = []"
      then show ?thesis using e by simp
    next
      assume "\<exists>t. split0 (b # cs) = b # t"
      then obtain t where t: "split0 (b # cs) = b # t" by blast
      have "split0 (a # b # t) = a # split0 (b # t)" using False by auto
      also have "split0 (b # t) = b # t" using "1.IH" False t by auto
      finally show ?thesis using e t by simp
    qed
  qed
qed simp_all

lemma dropWhile_prefix_head:
  assumes "dropWhile P (rev t) = u" "t = dropWhile P s"
  shows "dropWhile P (rev u) = rev u"
proof (cases "rev u")
  case Nil
  then show ?thesis by simp
next
  case (Cons a as)
  obtain w where w: "rev t = w @ u"
    using assms(1) by (metis takeWhile_dropWhile_id)
  then have "t = rev u @ rev w" by (metis rev_append rev_rev_ident)
  with Cons have th: "t = a # as @ rev w" by simp
  then have "t \<noteq> []" by simp
  then have "\<not> P (hd t)" using assms(2) by (metis hd_dropWhile)
  with th have "\<not> P a" by simp
  with Cons show ?thesis by simp
qed

lemma trim_idem: "trim (trim s) = trim s"
proof -
  let ?t = "dropWhile is_ws s"
  let ?u = "dropWhile is_ws (rev ?t)"
  have a: "dropWhile is_ws (rev ?u) = rev ?u"
    by (rule dropWhile_prefix_head [OF refl refl])
  have b: "dropWhile is_ws ?u = ?u" by simp
  show ?thesis
    unfolding trim_def by (simp add: a b)
qed

lemma includes_str_append: "includes_str b p \<Longrightarrow> includes_str (a @ b) p"
proof (induction a)
  case Nil
  then show ?case by simp
next
  case (Cons x a)
  then show ?case by simp
qed

lemma review_suffix_contains:
  "includes_str sfx_refReview kr_review" "includes_str sfx_compReview kr_review"
  by code_simp+

lemma isRemarkCol_review: "isRemarkCol (b @ sfx_refReview)" "isRemarkCol (b @ sfx_compReview)"
  by (simp_all add: isRemarkCol_def includes_str_append review_suffix_contains)

lemma review_not_fixed:
  "b @ sfx_refReview \<notin> set fixedNames" "b @ sfx_compReview \<notin> set fixedNames"
proof -
  have l: "\<And>s. s \<in> set fixedNames \<Longrightarrow> last s < 128"
    by (auto simp: fixedNames_def js_def)
  have "last (b @ sfx_refReview) = 0xD1A0" "last (b @ sfx_compReview) = 0xD1A0"
    by (simp_all add: sfx_refReview_def sfx_compReview_def kr_review_def kr_ref_def kr_comp_def js_def)
  then show "b @ sfx_refReview \<notin> set fixedNames" "b @ sfx_compReview \<notin> set fixedNames"
    using l by fastforce+
qed

lemma gridProp_cells: "c \<notin> set fixedNames \<Longrightarrow> gridProp r c = getProp (cells r) c"
  by (auto simp: gridProp_def fixedNames_def)

lemma reviewText_cells: "c \<notin> set fixedNames \<Longrightarrow> reviewText c r = trim (strOrEmpty (getProp (cells r) c))"
  by (simp add: reviewText_def gridProp_cells)

lemma reviewText_trim [simp]: "trim (reviewText c r) = reviewText c r"
  by (simp add: reviewText_def trim_idem)

section \<open>Idempotence of review compensation\<close>

lemma mergeVal_review_step:
  assumes "isRemarkCol c"
    and "trim (strOrEmpty s) = [] \<or> trim (strOrEmpty d) = [] \<or> trim (strOrEmpty s) = trim (strOrEmpty d)"
  shows "trim (strOrEmpty (mergeVal c d s)) =
           (if trim (strOrEmpty d) = [] then trim (strOrEmpty s) else trim (strOrEmpty d))"
  using assms by (auto simp: mergeVal_def Let_def trim_idem)

lemma fold_review_text:
  assumes rem: "isRemarkCol c"
    and mem: "\<forall>m \<in> set grp. trim (strOrEmpty (getProp (cells m) c)) = []
                                \<or> trim (strOrEmpty (getProp (cells m) c)) = k"
    and d0: "trim (strOrEmpty d0) = [] \<or> trim (strOrEmpty d0) = k"
  shows "trim (strOrEmpty (foldl (\<lambda>d src. mergeVal c d (getProp (cells src) c)) d0 grp)) =
           (if trim (strOrEmpty d0) = [] \<and> (\<forall>m \<in> set grp. trim (strOrEmpty (getProp (cells m) c)) = [])
            then [] else k)"
  using mem d0
proof (induction grp arbitrary: d0)
  case Nil
  then show ?case by auto
next
  case (Cons g grp)
  let ?s = "getProp (cells g) c"
  let ?d1 = "mergeVal c d0 ?s"
  have sg: "trim (strOrEmpty ?s) = [] \<or> trim (strOrEmpty ?s) = k" using Cons.prems(1) by simp
  have ok: "trim (strOrEmpty ?s) = [] \<or> trim (strOrEmpty d0) = [] \<or> trim (strOrEmpty ?s) = trim (strOrEmpty d0)"
    using sg Cons.prems(2) by auto
  have t1: "trim (strOrEmpty ?d1) =
              (if trim (strOrEmpty d0) = [] then trim (strOrEmpty ?s) else trim (strOrEmpty d0))"
    by (rule mergeVal_review_step [OF rem ok])
  have d1: "trim (strOrEmpty ?d1) = [] \<or> trim (strOrEmpty ?d1) = k"
    unfolding t1 using sg Cons.prems(2) by auto
  have rest: "\<forall>m \<in> set grp. trim (strOrEmpty (getProp (cells m) c)) = []
                                \<or> trim (strOrEmpty (getProp (cells m) c)) = k"
    using Cons.prems(1) by simp
  have "trim (strOrEmpty (foldl (\<lambda>d src. mergeVal c d (getProp (cells src) c)) d0 (g # grp)))
          = trim (strOrEmpty (foldl (\<lambda>d src. mergeVal c d (getProp (cells src) c)) ?d1 grp))"
    by simp
  also have "\<dots> = (if trim (strOrEmpty ?d1) = [] \<and> (\<forall>m \<in> set grp. trim (strOrEmpty (getProp (cells m) c)) = [])
            then [] else k)"
    by (rule Cons.IH [OF rest d1])
  also have "\<dots> = (if trim (strOrEmpty d0) = [] \<and> (\<forall>m \<in> set (g # grp). trim (strOrEmpty (getProp (cells m) c)) = [])
            then [] else k)"
    unfolding t1 using sg Cons.prems(2) by auto
  finally show ?case .
qed

lemma representative_member: "grp \<noteq> [] \<Longrightarrow> representative grp \<in> set grp"
  by (auto simp: representative_def find_Some_iff split: option.splits)

lemma mergeGroup_reviewText:
  assumes nf: "c \<notin> set fixedNames" and rem: "isRemarkCol c" and ne: "grp \<noteq> []"
    and mem: "\<forall>m \<in> set grp. reviewText c m = [] \<or> reviewText c m = k"
  shows "reviewText c (mergeGroup key grp) = (if \<forall>m \<in> set grp. reviewText c m = [] then [] else k)"
proof -
  have mem': "\<forall>m \<in> set grp. trim (strOrEmpty (getProp (cells m) c)) = []
                                \<or> trim (strOrEmpty (getProp (cells m) c)) = k"
    using mem by (simp add: reviewText_cells [OF nf])
  have rep: "representative grp \<in> set grp" by (rule representative_member [OF ne])
  then have d0: "trim (strOrEmpty (getProp (cells (representative grp)) c)) = []
                  \<or> trim (strOrEmpty (getProp (cells (representative grp)) c)) = k"
    using mem' by blast
  have "reviewText c (mergeGroup key grp)
          = trim (strOrEmpty (foldl (\<lambda>d src. mergeVal c d (getProp (cells src) c))
                                (getProp (cells (representative grp)) c) grp))"
    by (simp add: reviewText_cells [OF nf] getProp_mergeGroup [OF nf])
  also have "\<dots> = (if trim (strOrEmpty (getProp (cells (representative grp)) c)) = []
                         \<and> (\<forall>m \<in> set grp. trim (strOrEmpty (getProp (cells m) c)) = [])
                      then [] else k)"
    by (rule fold_review_text [OF rem mem' d0])
  also have "\<dots> = (if \<forall>m \<in> set grp. reviewText c m = [] then [] else k)"
    using rep by (auto simp: reviewText_cells [OF nf])
  finally show ?thesis .
qed


lemma orElse_simps [simp]: "orElse [] b = b" "a \<noteq> [] \<Longrightarrow> orElse a b = a"
  by (simp_all add: orElse_def)

lemma reviewText_rekey:
  "c \<notin> set fixedNames \<Longrightarrow> reviewText c (r\<lparr> integratedKey := k \<rparr>) = reviewText c r"
  by (simp add: reviewText_cells)

lemma processGroup_target:
  assumes nf: "pkRef \<notin> set fixedNames" "pkComp \<notin> set fixedNames"
    and rem: "isRemarkCol pkRef" "isRemarkCol pkComp"
    and ne: "grp \<noteq> []"
    and tk: "\<forall>m \<in> set grp. targetKey pkRef pkComp m = k"
    and nosep: "\<forall>m \<in> set grp. split0 (reviewText pkRef m) = reviewText pkRef m
                                 \<and> split0 (reviewText pkComp m) = reviewText pkComp m"
  shows "targetKey pkRef pkComp (processGroup pkRef pkComp (k, grp)) = k"
proof -
  from ne obtain m0 where m0: "m0 \<in> set grp" by (cases grp) auto
  have kk: "split0 k = k"
  proof -
    have "k = targetKey pkRef pkComp m0" using tk m0 by simp
    then show ?thesis by (simp add: targetKey_def split0_idem)
  qed
  have rt: "\<And>m. m \<in> set grp \<Longrightarrow> reviewText pkRef m = [] \<or> reviewText pkRef m = k"
  proof -
    fix m assume m: "m \<in> set grp"
    show "reviewText pkRef m = [] \<or> reviewText pkRef m = k"
    proof (cases "reviewText pkRef m = []")
      case True
      then show ?thesis by simp
    next
      case False
      then have "targetKey pkRef pkComp m = split0 (reviewText pkRef m)"
        by (simp add: targetKey_def)
      then show ?thesis using tk nosep m by auto
    qed
  qed
  have ct: "\<And>m. m \<in> set grp \<Longrightarrow> reviewText pkRef m = [] \<Longrightarrow>
                 reviewText pkComp m = [] \<or> reviewText pkComp m = k"
  proof -
    fix m assume m: "m \<in> set grp" and r0: "reviewText pkRef m = []"
    show "reviewText pkComp m = [] \<or> reviewText pkComp m = k"
    proof (cases "reviewText pkComp m = []")
      case True
      then show ?thesis by simp
    next
      case False
      then have "targetKey pkRef pkComp m = split0 (reviewText pkComp m)"
        using r0 by (simp add: targetKey_def)
      then show ?thesis using tk nosep m by auto
    qed
  qed
  show ?thesis
  proof (cases "length grp = 1")
    case True
    then obtain m where g: "grp = [m]" by (cases grp) auto
    have m: "m \<in> set grp" using g by simp
    let ?r = "processGroup pkRef pkComp (k, grp)"
    have ik: "integratedKey ?r = k"
      using ne by (simp add: processGroup_key)
    have r1: "reviewText pkRef ?r = reviewText pkRef m"
      using g by (simp add: processGroup_def Let_def reviewText_rekey [OF nf(1)])
    have r2: "reviewText pkComp ?r = reviewText pkComp m"
      using g by (simp add: processGroup_def Let_def reviewText_rekey [OF nf(2)])
    show ?thesis
    proof (cases "reviewText pkRef m = []")
      case False
      then have "reviewText pkRef m = k" using rt [OF m] by simp
      then show ?thesis using False kk by (simp add: targetKey_def r1)
    next
      case True
      show ?thesis
      proof (cases "reviewText pkComp m = []")
        case False
        then have "reviewText pkComp m = k" using ct [OF m True] by simp
        then show ?thesis using True False kk by (simp add: targetKey_def r1 r2)
      next
        case c0: True
        show ?thesis using True c0 kk by (simp add: targetKey_def r1 r2 ik)
      qed
    qed
  next
    case False
    then have pg: "processGroup pkRef pkComp (k, grp) = mergeGroup k grp"
      by (simp add: processGroup_def Let_def)
    have rtm: "\<forall>m \<in> set grp. reviewText pkRef m = [] \<or> reviewText pkRef m = k"
      using rt by blast
    have r1: "reviewText pkRef (mergeGroup k grp)
                = (if \<forall>m \<in> set grp. reviewText pkRef m = [] then [] else k)"
      by (rule mergeGroup_reviewText [OF nf(1) rem(1) ne rtm])
    have ik: "integratedKey (mergeGroup k grp) = k" by (simp add: mergeGroup_fields)
    show ?thesis
    proof (cases "\<forall>m \<in> set grp. reviewText pkRef m = []")
      case False
      have "reviewText pkRef (mergeGroup k grp) = k" by (subst r1) (rule if_not_P [OF False])
      moreover have "k \<noteq> []" using False rt by force
      ultimately show ?thesis unfolding pg using kk by (simp add: targetKey_def)
    next
      case True
      have r0: "reviewText pkRef (mergeGroup k grp) = []" by (subst r1) (rule if_P [OF True])
      have ctm: "\<forall>m \<in> set grp. reviewText pkComp m = [] \<or> reviewText pkComp m = k"
        using ct True by blast
      have r2: "reviewText pkComp (mergeGroup k grp)
                = (if \<forall>m \<in> set grp. reviewText pkComp m = [] then [] else k)"
        by (rule mergeGroup_reviewText [OF nf(2) rem(2) ne ctm])
      show ?thesis
      proof (cases "\<forall>m \<in> set grp. reviewText pkComp m = []")
        case c0: True
        have "reviewText pkComp (mergeGroup k grp) = []" by (subst r2) (rule if_P [OF c0])
        then show ?thesis unfolding pg using r0 ik kk by (simp add: targetKey_def)
      next
        case c1: False
        have "reviewText pkComp (mergeGroup k grp) = k" by (subst r2) (rule if_not_P [OF c1])
        moreover have "k \<noteq> []" using c1 ctm by force
        ultimately show ?thesis unfolding pg using r0 kk by (simp add: targetKey_def)
      qed
    qed
  qed
qed


lemma processGroup_single_fixed:
  "integratedKey r = k \<Longrightarrow> processGroup pkRef pkComp (k, [r]) = r"
  by (auto simp: processGroup_def Let_def)

text \<open>
  Claim C4, as stated, fails. The identity review columns are themselves review columns,
  so merging a group concatenates the identity review values of its members. Row \<open>K1\<close>
  reviewed as \<open>K1\<close> and row \<open>K2\<close> reviewed as \<open>K1::a\<close> have target key \<open>K1\<close> and merge into
  one row with key \<open>K1\<close> and identity review value \<open>K1 / K1::a\<close>; a second application
  reads that value, takes the part before \<open>::\<close>, and re-keys the row to \<open>K1 / K1\<close>.
\<close>

theorem review_compensation_not_idempotent:
  "applyReviewCompensation (js ''TAG'') [] (applyReviewCompensation (js ''TAG'') [] rowsSep)
     \<noteq> applyReviewCompensation (js ''TAG'') [] rowsSep
   \<and> map integratedKey (applyReviewCompensation (js ''TAG'') [] rowsSep) = [js ''K1'']
   \<and> map integratedKey (applyReviewCompensation (js ''TAG'') []
                           (applyReviewCompensation (js ''TAG'') [] rowsSep)) = [js ''K1 / K1'']"
proof -
  have a: "map integratedKey (applyReviewCompensation (js ''TAG'') [] rowsSep) = [js ''K1'']"
    by code_simp
  have b: "map integratedKey (applyReviewCompensation (js ''TAG'') []
                           (applyReviewCompensation (js ''TAG'') [] rowsSep)) = [js ''K1 / K1'']"
    by code_simp
  have "js ''K1'' \<noteq> js ''K1 / K1''" by (simp add: js_def)
  with a b show ?thesis by auto
qed

text \<open>
  Claim C4, amended. On rows whose identity review values do not contain the merge
  separator \<open>::\<close>, applying \<open>applyReviewCompensation\<close> twice gives the same rows, in the
  same order and with the same values, as applying it once.
\<close>

theorem review_compensation_idempotent:
  fixes pkCol :: jsstring and ms :: "MappingInfo list" and rs :: "GridRow list"
  defines "pkRef \<equiv> pkReviewBase pkCol ms @ sfx_refReview"
    and "pkComp \<equiv> pkReviewBase pkCol ms @ sfx_compReview"
  assumes nosep: "\<forall>r \<in> set rs. split0 (reviewText pkRef r) = reviewText pkRef r
                               \<and> split0 (reviewText pkComp r) = reviewText pkComp r"
  shows "applyReviewCompensation pkCol ms (applyReviewCompensation pkCol ms rs)
           = applyReviewCompensation pkCol ms rs"
proof (cases "list_ex (hasReviewChange pkRef pkComp) rs")
  case False
  then have "applyReviewCompensation pkCol ms rs = rs"
    by (simp add: applyReviewCompensation_def Let_def pkRef_def pkComp_def)
  then show ?thesis by simp
next
  case True
  let ?T = "targetKey pkRef pkComp"
  let ?pg = "processGroup pkRef pkComp"
  let ?G = "groupRows pkRef pkComp rs"
  let ?out = "map ?pg ?G"
  have out: "applyReviewCompensation pkCol ms rs = ?out"
    using True by (simp add: applyReviewCompensation_def Let_def pkRef_def pkComp_def)
  have nf: "pkRef \<notin> set fixedNames" "pkComp \<notin> set fixedNames"
    by (simp_all add: pkRef_def pkComp_def review_not_fixed)
  have rem: "isRemarkCol pkRef" "isRemarkCol pkComp"
    by (simp_all add: pkRef_def pkComp_def isRemarkCol_review)
  have grp: "?T (?pg g) = fst g \<and> integratedKey (?pg g) = fst g" if g: "g \<in> set ?G" for g
  proof -
    obtain k ms' where kg: "g = (k, ms')" by (cases g)
    from g have "ms' = filter (\<lambda>r. ?T r = k) rs \<and> ms' \<noteq> []"
      unfolding kg by (rule iffD1 [OF groupRows_member])
    then have gm: "ms' = filter (\<lambda>r. ?T r = k) rs" and ne: "ms' \<noteq> []"
      by blast+
    have tk: "\<forall>m \<in> set ms'. ?T m = k" using gm by simp
    have ns: "\<forall>m \<in> set ms'. split0 (reviewText pkRef m) = reviewText pkRef m
                                 \<and> split0 (reviewText pkComp m) = reviewText pkComp m"
      using gm nosep by simp
    have "?T (?pg (k, ms')) = k"
      by (rule processGroup_target [OF nf rem ne tk ns])
    moreover have "integratedKey (?pg (k, ms')) = k"
      using ne by (simp add: processGroup_key)
    ultimately show ?thesis unfolding kg by simp
  qed
  have keys: "map ?T ?out = map fst ?G"
    using grp by (simp add: list_eq_iff_nth_eq)
  have dist: "distinct (map ?T ?out)"
    unfolding keys by (rule groupRows_keys_distinct)
  have fixed: "?pg (?T r, [r]) = r" if r: "r \<in> set ?out" for r
  proof -
    from r obtain g where g: "g \<in> set ?G" and rg: "r = ?pg g" by auto
    have "integratedKey r = ?T r" unfolding rg using grp [OF g] by simp
    then show ?thesis by (rule processGroup_single_fixed)
  qed
  have again: "map ?pg (groupRows pkRef pkComp ?out) = ?out"
  proof -
    have "map ?pg (groupRows pkRef pkComp ?out) = map ?pg (map (\<lambda>r. (?T r, [r])) ?out)"
      by (simp only: groupRows_singletons [OF dist])
    also have "\<dots> = map (\<lambda>r. ?pg (?T r, [r])) ?out"
      by (simp only: map_map comp_def)
    also have "\<dots> = map (\<lambda>r. r) ?out"
      by (rule map_cong [OF refl]) (rule fixed)
    finally show ?thesis by simp
  qed
  have "applyReviewCompensation pkCol ms ?out = ?out"
    using again by (simp add: applyReviewCompensation_def Let_def pkRef_def pkComp_def)
  then show ?thesis unfolding out .
qed

lemma rowsTypo_nosep:
  "list_all (\<lambda>r. split0 (reviewText (pkReviewBase (js ''TAG'') [] @ sfx_refReview) r)
                    = reviewText (pkReviewBase (js ''TAG'') [] @ sfx_refReview) r
                  \<and> split0 (reviewText (pkReviewBase (js ''TAG'') [] @ sfx_compReview) r)
                    = reviewText (pkReviewBase (js ''TAG'') [] @ sfx_compReview) r) rowsTypo"
  by code_simp

lemma rowsTypo_merged:
  "map exists (applyReviewCompensation (js ''TAG'') [] rowsTypo) = [BothM]"
  by code_simp

theorem review_compensation_idempotent_witness:
  "applyReviewCompensation (js ''TAG'') [] (applyReviewCompensation (js ''TAG'') [] rowsTypo)
     = applyReviewCompensation (js ''TAG'') [] rowsTypo
   \<and> map exists (applyReviewCompensation (js ''TAG'') [] rowsTypo) = [BothM]"
proof -
  have ns: "\<forall>r \<in> set rowsTypo.
              split0 (reviewText (pkReviewBase (js ''TAG'') [] @ sfx_refReview) r)
                = reviewText (pkReviewBase (js ''TAG'') [] @ sfx_refReview) r
              \<and> split0 (reviewText (pkReviewBase (js ''TAG'') [] @ sfx_compReview) r)
                = reviewText (pkReviewBase (js ''TAG'') [] @ sfx_compReview) r"
    using rowsTypo_nosep by (simp only: list_all_iff)
  from review_compensation_idempotent [OF ns] rowsTypo_merged show ?thesis by simp
qed

section \<open>Merge correctness\<close>

lemma startsWith_refl [simp]: "startsWith s s"
  by (induction s) auto



lemma includes_str_Nil [simp]: "includes_str s []"
  by (cases s) auto

lemma includes_str_refl [simp]: "includes_str s s"
  by (cases s) auto



























end
